theory Spec2Isabelle
  imports Main "HOL-Library.Word"
begin

section \<open>The colour sequence memory game (ColorSequenceGame.ino)\<close>

text \<open>
  The sketch drives four LED/button pairs. Both copies of the sketch in the repository
  (version 0.1 and version 1.0) have the same functions; version 1.0 renames
  \<open>hasLost\<close> to \<open>has_lost\<close> and the button state variables to snake case, and seeds the
  random number generator in \<open>setup\<close>. The names below are those of version 1.0.

  Everything the sketch does beyond computing is explicit here:
  \<^item> the globals (the game state and the four button state variables) are fields of the
    record \<open>Machine\<close>, passed in and returned;
  \<^item> every \<open>digitalWrite\<close> and \<open>delay\<close> call is appended to \<open>writes\<close>, oldest first;
  \<^item> every \<open>digitalRead\<close> call takes the next level of \<open>reads\<close>, the recorded answers of
    the hardware in call order; a busy-waiting loop that is still waiting when the
    recording ends stops with \<open>AwaitingInput\<close>;
  \<^item> the value returned by \<open>random(RED, YELLOW + 1)\<close> is a parameter of \<open>addColor\<close> and
    of its callers;
  \<^item> an access outside the 25 elements of \<open>sequence\<close>, undefined behaviour in C++, stops
    with \<open>OutOfBounds\<close>;
  \<^item> a value of \<open>random\<close> that is none of the five enumerators of \<open>Color\<close>, which the
    bounds of the call exclude, stops with \<open>NotAnEnumerator\<close>.
\<close>

subsection \<open>Pins, levels and colours\<close>

type_synonym u8 = "8 word"

datatype level = LOW | HIGH

definition RED_BUTTON :: u8 where "RED_BUTTON = 2"
definition RED_LED :: u8 where "RED_LED = 3"
definition BLUE_BUTTON :: u8 where "BLUE_BUTTON = 4"
definition BLUE_LED :: u8 where "BLUE_LED = 5"
definition GREEN_BUTTON :: u8 where "GREEN_BUTTON = 6"
definition GREEN_LED :: u8 where "GREEN_LED = 7"
definition YELLOW_BUTTON :: u8 where "YELLOW_BUTTON = 8"
definition YELLOW_LED :: u8 where "YELLOW_LED = 9"

lemmas pin_defs = RED_BUTTON_def RED_LED_def BLUE_BUTTON_def BLUE_LED_def
  GREEN_BUTTON_def GREEN_LED_def YELLOW_BUTTON_def YELLOW_LED_def

datatype Color = NO_COLOR | RED | BLUE | GREEN | YELLOW

text \<open>The enumerators' values: \<open>NO_COLOR\<close> is 0, \<open>RED\<close> 1, up to \<open>YELLOW\<close> 4.\<close>

fun Color_value :: "Color \<Rightarrow> int" where
  "Color_value NO_COLOR = 0"
| "Color_value RED = 1"
| "Color_value BLUE = 2"
| "Color_value GREEN = 3"
| "Color_value YELLOW = 4"

text \<open>
  The cast \<open>(Color) x\<close> of a \<open>long\<close>: the enumeration's underlying type is \<open>uint8_t\<close>, so
  the value is taken modulo 256. A value that is none of the five enumerators has no
  image in the datatype.
\<close>

definition Color_of_long :: "int \<Rightarrow> Color option" where
  "Color_of_long x =
     (let v = x mod 256 in
      if v = 0 then Some NO_COLOR
      else if v = 1 then Some RED
      else if v = 2 then Some BLUE
      else if v = 3 then Some GREEN
      else if v = 4 then Some YELLOW
      else None)"

text \<open>
  What the Arduino reference promises of \<open>random(min, max)\<close>: a value from \<open>min\<close>
  (inclusive) to \<open>max\<close> (exclusive). The core library is not part of the repository.
\<close>

definition random_returns :: "int \<Rightarrow> int \<Rightarrow> int \<Rightarrow> bool" where
  "random_returns howsmall howbig r = (howsmall \<le> r \<and> r < howbig)"

subsection \<open>The state\<close>

record GameState =
  has_lost :: bool
  sequence :: "Color list"
  index :: u8

datatype event = DigitalWrite u8 level | Delay nat

record Machine =
  g_GameState :: GameState
  red_button_state :: level
  blue_button_state :: level
  green_button_state :: level
  yellow_button_state :: level
  reads :: "level list"
  writes :: "event list"

datatype stop = OutOfBounds | NotAnEnumerator | AwaitingInput

text \<open>
  The initialiser of \<open>g_GameState\<close>: \<open>{ NO_COLOR }\<close> sets the first element and
  zero-initialises the other 24, and zero is \<open>NO_COLOR\<close>. The button state variables
  start \<open>LOW\<close>.
\<close>

definition power_on :: "level list \<Rightarrow> Machine" where
  "power_on rs =
     \<lparr>g_GameState = \<lparr>has_lost = False, sequence = replicate 25 NO_COLOR, index = 0\<rparr>,
      red_button_state = LOW, blue_button_state = LOW,
      green_button_state = LOW, yellow_button_state = LOW,
      reads = rs, writes = []\<rparr>"

subsection \<open>Hardware calls and array accesses\<close>

definition digitalWrite :: "u8 \<Rightarrow> level \<Rightarrow> Machine \<Rightarrow> Machine" where
  "digitalWrite pin l m = m\<lparr>writes := writes m @ [DigitalWrite pin l]\<rparr>"

definition delay :: "nat \<Rightarrow> Machine \<Rightarrow> Machine" where
  "delay ms m = m\<lparr>writes := writes m @ [Delay ms]\<rparr>"

definition digitalRead :: "u8 \<Rightarrow> Machine \<Rightarrow> stop + (level \<times> Machine)" where
  "digitalRead pin m =
     (case reads m of
        [] \<Rightarrow> Inl AwaitingInput
      | l # ls \<Rightarrow> Inr (l, m\<lparr>reads := ls\<rparr>))"

definition array_load :: "'a list \<Rightarrow> nat \<Rightarrow> stop + 'a" where
  "array_load a i = (if i < length a then Inr (a ! i) else Inl OutOfBounds)"

definition array_store :: "'a list \<Rightarrow> nat \<Rightarrow> 'a \<Rightarrow> stop + 'a list" where
  "array_store a i v = (if i < length a then Inr (a[i := v]) else Inl OutOfBounds)"

subsection \<open>The functions of the sketch\<close>

definition addColor :: "int \<Rightarrow> Machine \<Rightarrow> stop + Machine" where
  "addColor r m =
     (case Color_of_long r of
        None \<Rightarrow> Inl NotAnEnumerator
      | Some color \<Rightarrow>
          (case array_store (sequence (g_GameState m)) (unat (index (g_GameState m))) color of
             Inl e \<Rightarrow> Inl e
           | Inr a \<Rightarrow>
               Inr (m\<lparr>g_GameState := (g_GameState m)
                      \<lparr>sequence := a, index := index (g_GameState m) + 1\<rparr>\<rparr>)))"

definition displayColor :: "Color \<Rightarrow> Machine \<Rightarrow> Machine" where
  "displayColor c m =
     (let color_pin = (case c of
                         RED \<Rightarrow> RED_LED
                       | BLUE \<Rightarrow> BLUE_LED
                       | GREEN \<Rightarrow> GREEN_LED
                       | YELLOW \<Rightarrow> YELLOW_LED
                       | NO_COLOR \<Rightarrow> 0)
      in digitalWrite color_pin LOW (delay 500 (digitalWrite color_pin HIGH m)))"

text \<open>The \<open>for\<close> loop of \<open>displaySequence\<close>, from the counter \<open>i\<close> on.\<close>

function displaySequence_from :: "u8 \<Rightarrow> Machine \<Rightarrow> stop + Machine" where
  "displaySequence_from i m =
     (if i < index (g_GameState m) then
        (case array_load (sequence (g_GameState m)) (unat i) of
           Inl e \<Rightarrow> Inl e
         | Inr c \<Rightarrow> displaySequence_from (i + 1) (delay 250 (displayColor c m)))
      else Inr m)"
  by pat_completeness auto

lemma unat_succ_below: "(i :: u8) < j \<Longrightarrow> unat (i + 1) = Suc (unat i)"
proof -
  assume "i < j"
  then have "unat i < unat j" by (simp add: word_less_nat_alt)
  moreover have "unat j < 256" using unsigned_less [of j] by simp
  ultimately have "unat i + 1 < 256" by simp
  then show ?thesis by (simp add: unat_word_ariths)
qed

lemma g_GameState_delay [simp]: "g_GameState (delay ms m) = g_GameState m"
  by (simp add: delay_def)

lemma g_GameState_digitalWrite [simp]: "g_GameState (digitalWrite p l m) = g_GameState m"
  by (simp add: digitalWrite_def)

lemma g_GameState_displayColor [simp]: "g_GameState (displayColor c m) = g_GameState m"
  by (simp add: displayColor_def Let_def)

termination displaySequence_from
proof (relation "measure (\<lambda>(i, m). unat (index (g_GameState m)) - unat i)")
  show "wf (measure (\<lambda>(i, m). unat (index (g_GameState m)) - unat i))"
    by simp
next
  fix i :: u8 and m :: Machine and c :: Color
  assume less: "i < index (g_GameState m)"
  then have "unat i < unat (index (g_GameState m))"
    by (simp add: word_less_nat_alt)
  with unat_succ_below [OF less]
  show "((i + 1, delay 250 (displayColor c m)), (i, m))
          \<in> measure (\<lambda>(i, m). unat (index (g_GameState m)) - unat i)"
    by simp
qed

declare displaySequence_from.simps [simp del]

definition displaySequence :: "Machine \<Rightarrow> stop + Machine" where
  "displaySequence m = displaySequence_from 0 m"

definition updateButtonStates :: "Machine \<Rightarrow> stop + Machine" where
  "updateButtonStates m =
     (case digitalRead RED_BUTTON m of
        Inl e \<Rightarrow> Inl e
      | Inr (r, m1) \<Rightarrow>
     (case digitalRead BLUE_BUTTON (m1\<lparr>red_button_state := r\<rparr>) of
        Inl e \<Rightarrow> Inl e
      | Inr (b, m2) \<Rightarrow>
     (case digitalRead GREEN_BUTTON (m2\<lparr>blue_button_state := b\<rparr>) of
        Inl e \<Rightarrow> Inl e
      | Inr (g, m3) \<Rightarrow>
     (case digitalRead YELLOW_BUTTON (m3\<lparr>green_button_state := g\<rparr>) of
        Inl e \<Rightarrow> Inl e
      | Inr (y, m4) \<Rightarrow> Inr (m4\<lparr>yellow_button_state := y\<rparr>)))))"

definition buttonIsPressed :: "Machine \<Rightarrow> stop + (bool \<times> Machine)" where
  "buttonIsPressed m =
     (case updateButtonStates m of
        Inl e \<Rightarrow> Inl e
      | Inr m' \<Rightarrow>
          Inr (red_button_state m' = HIGH
                 \<or> blue_button_state m' = HIGH
                 \<or> green_button_state m' = HIGH
                 \<or> yellow_button_state m' = HIGH, m'))"

definition getButtonPressed :: "Machine \<Rightarrow> u8" where
  "getButtonPressed m =
     (if red_button_state m = HIGH then RED_BUTTON
      else if blue_button_state m = HIGH then BLUE_BUTTON
      else if green_button_state m = HIGH then GREEN_BUTTON
      else if yellow_button_state m = HIGH then YELLOW_BUTTON
      else 0)"

definition colorToLED :: "Color \<Rightarrow> u8" where
  "colorToLED color =
     (case color of
        RED \<Rightarrow> RED_LED
      | BLUE \<Rightarrow> BLUE_LED
      | GREEN \<Rightarrow> GREEN_LED
      | YELLOW \<Rightarrow> YELLOW_LED
      | NO_COLOR \<Rightarrow> 0)"

text \<open>The \<open>default\<close> of \<open>buttonToLED\<close> returns \<open>NO_COLOR\<close> as a \<open>uint8_t\<close>, which is 0.\<close>

definition buttonToLED :: "u8 \<Rightarrow> u8" where
  "buttonToLED btn_pin =
     (if btn_pin = RED_BUTTON then RED_LED
      else if btn_pin = BLUE_BUTTON then BLUE_LED
      else if btn_pin = GREEN_BUTTON then GREEN_LED
      else if btn_pin = YELLOW_BUTTON then YELLOW_LED
      else word_of_int (Color_value NO_COLOR))"

definition buttonToColor :: "u8 \<Rightarrow> Color" where
  "buttonToColor btnPin =
     (if btnPin = RED_BUTTON then RED
      else if btnPin = BLUE_BUTTON then BLUE
      else if btnPin = GREEN_BUTTON then GREEN
      else if btnPin = YELLOW_BUTTON then YELLOW
      else NO_COLOR)"

lemma updateButtonStates_reads:
  "updateButtonStates m =
     (case reads m of
        r # b # g # y # rest \<Rightarrow>
          Inr (m\<lparr>red_button_state := r, blue_button_state := b, green_button_state := g,
                 yellow_button_state := y, reads := rest\<rparr>)
      | _ \<Rightarrow> Inl AwaitingInput)"
  by (simp add: updateButtonStates_def digitalRead_def split: list.splits)

lemma buttonIsPressed_consumes:
  "buttonIsPressed m = Inr (pressed, m') \<Longrightarrow> length (reads m) = length (reads m') + 4"
  by (auto simp: buttonIsPressed_def updateButtonStates_reads split: list.splits)

lemma reads_delay [simp]: "reads (delay ms m) = reads m"
  by (simp add: delay_def)

lemma reads_digitalWrite [simp]: "reads (digitalWrite p l m) = reads m"
  by (simp add: digitalWrite_def)

text \<open>The first \<open>while\<close> loop of \<open>getButtonColor\<close>: poll until a button is pressed.\<close>

function getButtonColor_await :: "Machine \<Rightarrow> stop + Machine" where
  "getButtonColor_await m =
     (case buttonIsPressed m of
        Inl e \<Rightarrow> Inl e
      | Inr (pressed, m') \<Rightarrow>
          if \<not> pressed then getButtonColor_await (delay 10 m') else Inr m')"
  by pat_completeness auto
termination
  by (relation "measure (\<lambda>m. length (reads m))")
     (auto dest: buttonIsPressed_consumes)

declare getButtonColor_await.simps [simp del]

text \<open>The second \<open>while\<close> loop: poll the pressed button's line until it is released.\<close>

function getButtonColor_held :: "u8 \<Rightarrow> Machine \<Rightarrow> stop + Machine" where
  "getButtonColor_held buttonPin m =
     (case digitalRead buttonPin m of
        Inl e \<Rightarrow> Inl e
      | Inr (l, m') \<Rightarrow>
          if l = HIGH then getButtonColor_held buttonPin (delay 10 m') else Inr m')"
  by pat_completeness auto
termination
  by (relation "measure (\<lambda>(p, m). length (reads m))")
     (auto simp: digitalRead_def split: list.splits)

declare getButtonColor_held.simps [simp del]

definition getButtonColor :: "Machine \<Rightarrow> stop + (Color \<times> Machine)" where
  "getButtonColor m =
     (case getButtonColor_await m of
        Inl e \<Rightarrow> Inl e
      | Inr m1 \<Rightarrow>
          (let buttonPin = getButtonPressed m1;
               ledPin = buttonToLED buttonPin
           in case getButtonColor_held buttonPin (digitalWrite ledPin HIGH m1) of
                Inl e \<Rightarrow> Inl e
              | Inr m2 \<Rightarrow> Inr (buttonToColor buttonPin, digitalWrite ledPin LOW m2)))"

lemma getButtonColor_await_consumes:
  "getButtonColor_await m = Inr m' \<Longrightarrow> length (reads m') < length (reads m)"
proof (induction m rule: getButtonColor_await.induct)
  case (1 m)
  from "1.prems" obtain pressed m1 where
    b: "buttonIsPressed m = Inr (pressed, m1)"
    by (subst (asm) getButtonColor_await.simps) (auto split: sum.splits)
  show ?case
  proof (cases pressed)
    case True
    with b "1.prems" have "m' = m1"
      by (subst (asm) getButtonColor_await.simps) simp
    with buttonIsPressed_consumes [OF b] show ?thesis by simp
  next
    case False
    with b "1.prems" have "getButtonColor_await (delay 10 m1) = Inr m'"
      by (subst (asm) getButtonColor_await.simps) simp
    with "1.IH" [OF b refl False] have "length (reads m') < length (reads (delay 10 m1))"
      by simp
    with buttonIsPressed_consumes [OF b] show ?thesis by simp
  qed
qed

lemma getButtonColor_held_consumes:
  "getButtonColor_held p m = Inr m' \<Longrightarrow> length (reads m') < length (reads m)"
proof (induction p m rule: getButtonColor_held.induct)
  case (1 p m)
  from "1.prems" obtain l m1 where
    d: "digitalRead p m = Inr (l, m1)"
    by (subst (asm) getButtonColor_held.simps) (auto split: sum.splits)
  then have len: "length (reads m) = Suc (length (reads m1))"
    by (auto simp: digitalRead_def split: list.splits)
  show ?case
  proof (cases "l = HIGH")
    case True
    with d "1.prems" have "getButtonColor_held p (delay 10 m1) = Inr m'"
      by (subst (asm) getButtonColor_held.simps) simp
    with "1.IH" [OF d refl True] len show ?thesis by simp
  next
    case False
    with d "1.prems" have "m' = m1"
      by (subst (asm) getButtonColor_held.simps) simp
    with len show ?thesis by simp
  qed
qed

lemma getButtonColor_consumes:
  "getButtonColor m = Inr (c, m') \<Longrightarrow> length (reads m') < length (reads m)"
  by (auto simp: getButtonColor_def Let_def split: sum.splits
           dest!: getButtonColor_await_consumes getButtonColor_held_consumes)

text \<open>The \<open>for\<close> loop of \<open>startNextRound\<close>, from the counter \<open>btnsPressed\<close> on.\<close>

function startNextRound_from :: "u8 \<Rightarrow> Machine \<Rightarrow> stop + Machine" where
  "startNextRound_from btnsPressed m =
     (if btnsPressed < index (g_GameState m) then
        (case getButtonColor m of
           Inl e \<Rightarrow> Inl e
         | Inr (chosenColor, m') \<Rightarrow>
             (case array_load (sequence (g_GameState m')) (unat btnsPressed) of
                Inl e \<Rightarrow> Inl e
              | Inr expected \<Rightarrow>
                  if chosenColor \<noteq> expected then
                    Inr (m'\<lparr>g_GameState := (g_GameState m')\<lparr>has_lost := True\<rparr>\<rparr>)
                  else startNextRound_from (btnsPressed + 1) m'))
      else Inr m)"
  by pat_completeness auto
termination
  by (relation "measure (\<lambda>(i, m). length (reads m))")
     (auto dest: getButtonColor_consumes)

declare startNextRound_from.simps [simp del]

definition startNextRound :: "int \<Rightarrow> Machine \<Rightarrow> stop + Machine" where
  "startNextRound r m =
     (case addColor r (delay 250 m) of
        Inl e \<Rightarrow> Inl e
      | Inr m1 \<Rightarrow>
          (case displaySequence m1 of
             Inl e \<Rightarrow> Inl e
           | Inr m2 \<Rightarrow> startNextRound_from 0 (delay 1500 m2)))"

definition showLoss :: "Machine \<Rightarrow> Machine" where
  "showLoss m =
     (let m = digitalWrite RED_LED HIGH m;
          m = digitalWrite BLUE_LED HIGH m;
          m = digitalWrite GREEN_LED HIGH m;
          m = digitalWrite YELLOW_LED HIGH m;
          m = delay 1000 m;
          m = digitalWrite YELLOW_LED LOW m;
          m = delay 500 m;
          m = digitalWrite GREEN_LED LOW m;
          m = delay 500 m;
          m = digitalWrite BLUE_LED LOW m;
          m = delay 500 m;
          m = digitalWrite RED_LED LOW m;
          m = delay 500 m
      in m)"

text \<open>One iteration of the main loop; \<open>r\<close> is what \<open>random\<close> returns if it is called.\<close>

definition loop :: "int \<Rightarrow> Machine \<Rightarrow> stop + Machine" where
  "loop r m =
     (if \<not> has_lost (g_GameState m) then startNextRound r m else Inr (showLoss m))"

text \<open>Successive iterations of the main loop, one for each element of the list.\<close>

fun loop_times :: "int list \<Rightarrow> Machine \<Rightarrow> stop + Machine" where
  "loop_times [] m = Inr m"
| "loop_times (r # rs) m =
     (case loop r m of Inl e \<Rightarrow> Inl e | Inr m' \<Rightarrow> loop_times rs m')"

subsection \<open>Vocabulary of the properties\<close>

text \<open>
  The colours in use: the first \<open>index\<close> elements of \<open>sequence\<close>.
\<close>

definition live :: "GameState \<Rightarrow> Color list" where
  "live g = take (unat (index g)) (sequence g)"

text \<open>
  One output pulse for a colour: its LED is driven high, held for 500 ms and driven
  low. Playing a list of colours back is one pulse each, with a pause of 250 ms after
  every pulse.
\<close>

definition pulse :: "Color \<Rightarrow> event list" where
  "pulse c = [DigitalWrite (colorToLED c) HIGH, Delay 500, DigitalWrite (colorToLED c) LOW]"

definition playback :: "Color list \<Rightarrow> event list" where
  "playback cs = concat (map (\<lambda>c. pulse c @ [Delay 250]) cs)"

fun is_rising :: "event \<Rightarrow> bool" where
  "is_rising (DigitalWrite p HIGH) = True"
| "is_rising (DigitalWrite p LOW) = False"
| "is_rising (Delay ms) = False"

text \<open>
  \<open>n\<close> successive calls of \<open>getButtonColor\<close>: the colours they return, in order, and
  the machine after the last call.
\<close>

fun getButtonColor_times :: "nat \<Rightarrow> Machine \<Rightarrow> stop + (Color list \<times> Machine)" where
  "getButtonColor_times 0 m = Inr ([], m)"
| "getButtonColor_times (Suc n) m =
     (case getButtonColor m of
        Inl e \<Rightarrow> Inl e
      | Inr (c, m') \<Rightarrow>
          (case getButtonColor_times n m' of
             Inl e \<Rightarrow> Inl e
           | Inr (cs, m'') \<Rightarrow> Inr (c # cs, m'')))"

text \<open>What one call of \<open>showLoss\<close> writes.\<close>

definition loss_animation :: "event list" where
  "loss_animation =
     [DigitalWrite RED_LED HIGH, DigitalWrite BLUE_LED HIGH, DigitalWrite GREEN_LED HIGH,
      DigitalWrite YELLOW_LED HIGH, Delay 1000,
      DigitalWrite YELLOW_LED LOW, Delay 500,
      DigitalWrite GREEN_LED LOW, Delay 500,
      DigitalWrite BLUE_LED LOW, Delay 500,
      DigitalWrite RED_LED LOW, Delay 500]"

text \<open>
  The invariant of the game state: the buffer has its 25 elements, \<open>index\<close> is at most
  25, and every element below \<open>index\<close> is one of the four playable colours.
\<close>

definition playable_below_index :: "GameState \<Rightarrow> bool" where
  "playable_below_index g =
     (length (sequence g) = 25 \<and> unat (index g) \<le> 25
      \<and> (\<forall>i<unat (index g). sequence g ! i \<in> {RED, BLUE, GREEN, YELLOW}))"

subsection \<open>A player who makes no mistake\<close>

text \<open>
  The shortest recording of one press of the button of a playable colour: a poll of the
  four lines (Red, Blue, Green, Yellow) that finds only that button's line high, then
  one read of the held line that finds it low again.
\<close>

definition press :: "Color \<Rightarrow> level list" where
  "press c =
     [if c = RED then HIGH else LOW, if c = BLUE then HIGH else LOW,
      if c = GREEN then HIGH else LOW, if c = YELLOW then HIGH else LOW, LOW]"

text \<open>
  The recording of a round in which the colours \<open>cs\<close> are pressed in order, and of a
  whole game in which the sequence grows to \<open>cs\<close> and every round repeats the colours
  shown so far.
\<close>

definition round_reads :: "Color list \<Rightarrow> level list" where
  "round_reads cs = concat (map press cs)"

definition game_reads :: "Color list \<Rightarrow> level list" where
  "game_reads cs = concat (map (\<lambda>n. round_reads (take n cs)) [1..<Suc (length cs)])"

subsection \<open>Example machines\<close>

text \<open>A machine in its second round, with the sequence Yellow, Red.\<close>

definition m_two :: Machine where
  "m_two = (power_on [])\<lparr>g_GameState :=
      \<lparr>has_lost = False, sequence = [YELLOW, RED] @ replicate 23 NO_COLOR, index = 2\<rparr>\<rparr>"

text \<open>The same machine with a player who presses Yellow, Green and Blue.\<close>

definition m_presses :: Machine where
  "m_presses = m_two\<lparr>reads := press YELLOW @ press GREEN @ press BLUE\<rparr>"

text \<open>The same machine with a player who presses Yellow, Red and Blue.\<close>

definition m_matches :: Machine where
  "m_matches = m_two\<lparr>reads := press YELLOW @ press RED @ press BLUE\<rparr>"

text \<open>
  The same machine where a poll finds no line high, the next poll finds Green and
  Yellow high together, and the Green line then reads high twice and low once.
\<close>

definition m_two_buttons :: Machine where
  "m_two_buttons =
     m_two\<lparr>reads := [LOW, LOW, LOW, LOW, LOW, LOW, HIGH, HIGH, HIGH, HIGH, LOW, HIGH]\<rparr>"

text \<open>A machine that has lost, with a press of Yellow still to be read.\<close>

definition m_lost :: Machine where
  "m_lost = m_two\<lparr>g_GameState := (g_GameState m_two)\<lparr>has_lost := True\<rparr>,
                  reads := press YELLOW\<rparr>"

text \<open>A machine whose buffer is full: 25 colours, \<open>index = 25\<close>.\<close>

definition m_full :: Machine where
  "m_full = (power_on [])\<lparr>g_GameState :=
      \<lparr>has_lost = False, sequence = replicate 25 GREEN, index = 25\<rparr>\<rparr>"

section \<open>Auxiliary facts\<close>

subsection \<open>The cast and the store of \<open>addColor\<close>\<close>

lemma Color_of_long_playable:
  "random_returns (Color_value RED) (Color_value YELLOW + 1) r \<Longrightarrow>
   \<exists>c. Color_of_long r = Some c \<and> c \<in> {RED, BLUE, GREEN, YELLOW} \<and> Color_value c = r"
  by (auto simp: random_returns_def Color_of_long_def Let_def)

lemma Color_of_long_value: "Color_of_long (Color_value c) = Some c"
  by (cases c) (simp_all add: Color_of_long_def)

lemma unat_index_succ:
  "unat (i :: u8) < 25 \<Longrightarrow> unat (i + 1) = Suc (unat i)"
  by (simp add: unat_word_ariths)

lemma addColor_out_of_bounds:
  assumes r: "random_returns (Color_value RED) (Color_value YELLOW + 1) r"
    and len: "length (sequence (g_GameState m)) = 25"
    and idx: "\<not> index (g_GameState m) < 25"
  shows "addColor r m = Inl OutOfBounds"
proof -
  from Color_of_long_playable [OF r] obtain c where c: "Color_of_long r = Some c" by blast
  from idx have "\<not> unat (index (g_GameState m)) < 25" by (simp add: word_less_nat_alt)
  with c len show ?thesis by (simp add: addColor_def array_store_def)
qed

subsection \<open>Playback\<close>

lemma displayColor_writes:
  "displayColor c m = m\<lparr>writes := writes m @ pulse c\<rparr>"
  by (cases c) (simp_all add: displayColor_def pulse_def colorToLED_def digitalWrite_def delay_def)

lemma displaySequence_from_writes:
  "unat (index (g_GameState m)) \<le> length (sequence (g_GameState m)) \<Longrightarrow>
   unat i \<le> unat (index (g_GameState m)) \<Longrightarrow>
   displaySequence_from i m =
     Inr (m\<lparr>writes := writes m @ playback (drop (unat i) (live (g_GameState m)))\<rparr>)"
proof (induction i m rule: displaySequence_from.induct)
  case (1 i m)
  let ?g = "g_GameState m"
  show ?case
  proof (cases "i < index ?g")
    case True
    then have lt: "unat i < unat (index ?g)" by (simp add: word_less_nat_alt)
    with "1.prems" have inb: "unat i < length (sequence ?g)" by simp
    let ?c = "sequence ?g ! unat i"
    let ?m2 = "delay 250 (displayColor ?c m)"
    have load: "array_load (sequence ?g) (unat i) = Inr ?c"
      using inb by (simp add: array_load_def)
    have suc: "unat (i + 1) = Suc (unat i)" by (rule unat_succ_below [OF True])
    have ih: "displaySequence_from (i + 1) ?m2 =
        Inr (?m2\<lparr>writes := writes ?m2 @ playback (drop (unat (i + 1)) (live (g_GameState ?m2)))\<rparr>)"
      using "1.IH" [OF True load] "1.prems" lt suc by simp
    have split: "drop (unat i) (live ?g) = ?c # drop (Suc (unat i)) (live ?g)"
      using lt inb by (simp add: live_def Cons_nth_drop_Suc [symmetric])
    show ?thesis
      using True load ih suc split
      by (subst displaySequence_from.simps)
         (simp add: displayColor_writes delay_def playback_def)
  next
    case False
    then have "unat (index ?g) \<le> unat i" by (simp add: word_less_nat_alt)
    with "1.prems" have "drop (unat i) (live ?g) = []" by (simp add: live_def)
    with False show ?thesis
      by (subst displaySequence_from.simps) (simp add: playback_def)
  qed
qed

lemma displaySequence_from_frame:
  "displaySequence_from i m = Inr m' \<Longrightarrow> m' = m\<lparr>writes := writes m'\<rparr>"
proof (induction i m rule: displaySequence_from.induct)
  case (1 i m)
  show ?case
  proof (cases "i < index (g_GameState m)")
    case True
    with "1.prems" obtain c where
      load: "array_load (sequence (g_GameState m)) (unat i) = Inr c"
      and rec: "displaySequence_from (i + 1) (delay 250 (displayColor c m)) = Inr m'"
      by (subst (asm) displaySequence_from.simps) (auto split: sum.splits)
    from "1.IH" [OF True load rec] have
      "m' = (delay 250 (displayColor c m))\<lparr>writes := writes m'\<rparr>" .
    then have "m' = m\<lparr>writes := writes m'\<rparr>"
      by (simp add: displayColor_writes delay_def)
    then show ?thesis .
  next
    case False
    with "1.prems" have "m' = m"
      by (subst (asm) displaySequence_from.simps) simp
    then show ?thesis by simp
  qed
qed

lemma displaySequence_game:
  "displaySequence m = Inr m' \<Longrightarrow> g_GameState m' = g_GameState m"
proof -
  assume "displaySequence m = Inr m'"
  then have "m' = m\<lparr>writes := writes m'\<rparr>"
    unfolding displaySequence_def by (rule displaySequence_from_frame)
  then have "g_GameState m' = g_GameState (m\<lparr>writes := writes m'\<rparr>)" by simp
  then show ?thesis by simp
qed

lemma live_by_index:
  "unat (index g) \<le> length (sequence g) \<Longrightarrow>
   live g = map (\<lambda>i. sequence g ! i) [0..<unat (index g)]"
  by (auto simp: live_def intro!: nth_equalityI)

lemma rising_playback: "length (filter is_rising (playback cs)) = length cs"
  by (induction cs) (simp_all add: playback_def pulse_def)

lemma playback_pins:
  "DigitalWrite p l \<in> set (playback cs) \<Longrightarrow> \<exists>c\<in>set cs. p = colorToLED c"
  by (induction cs) (auto simp: playback_def pulse_def)

subsection \<open>Reading a button\<close>

lemma getButtonColor_await_game:
  "getButtonColor_await m = Inr m' \<Longrightarrow>
   g_GameState m' = g_GameState m
   \<and> (red_button_state m' = HIGH \<or> blue_button_state m' = HIGH
        \<or> green_button_state m' = HIGH \<or> yellow_button_state m' = HIGH)"
proof (induction m rule: getButtonColor_await.induct)
  case (1 m)
  from "1.prems" obtain pressed m1 where
    b: "buttonIsPressed m = Inr (pressed, m1)"
    by (subst (asm) getButtonColor_await.simps) (auto split: sum.splits)
  then have g1: "g_GameState m1 = g_GameState m"
    and p1: "pressed = (red_button_state m1 = HIGH \<or> blue_button_state m1 = HIGH
        \<or> green_button_state m1 = HIGH \<or> yellow_button_state m1 = HIGH)"
    by (auto simp: buttonIsPressed_def updateButtonStates_reads split: list.splits)
  show ?case
  proof (cases pressed)
    case True
    with b "1.prems" have "m' = m1"
      by (subst (asm) getButtonColor_await.simps) simp
    with g1 p1 True show ?thesis by simp
  next
    case False
    with b "1.prems" have "getButtonColor_await (delay 10 m1) = Inr m'"
      by (subst (asm) getButtonColor_await.simps) simp
    with "1.IH" [OF b refl False] g1 show ?thesis by simp
  qed
qed

lemma getButtonColor_held_game:
  "getButtonColor_held p m = Inr m' \<Longrightarrow>
   g_GameState m' = g_GameState m
   \<and> red_button_state m' = red_button_state m
   \<and> blue_button_state m' = blue_button_state m
   \<and> green_button_state m' = green_button_state m
   \<and> yellow_button_state m' = yellow_button_state m"
proof (induction p m rule: getButtonColor_held.induct)
  case (1 p m)
  from "1.prems" obtain l m1 where
    d: "digitalRead p m = Inr (l, m1)"
    by (subst (asm) getButtonColor_held.simps) (auto split: sum.splits)
  then have m1: "m1 = m\<lparr>reads := tl (reads m)\<rparr>"
    by (auto simp: digitalRead_def split: list.splits)
  show ?case
  proof (cases "l = HIGH")
    case True
    with d "1.prems" have "getButtonColor_held p (delay 10 m1) = Inr m'"
      by (subst (asm) getButtonColor_held.simps) simp
    with "1.IH" [OF d refl True] m1 show ?thesis by (simp add: delay_def)
  next
    case False
    with d "1.prems" have "m' = m1"
      by (subst (asm) getButtonColor_held.simps) simp
    with m1 show ?thesis by simp
  qed
qed

lemma getButtonColor_game:
  assumes "getButtonColor m = Inr (c, m')"
  shows "g_GameState m' = g_GameState m"
    and "c = buttonToColor (getButtonPressed m')"
    and "red_button_state m' = HIGH \<or> blue_button_state m' = HIGH
        \<or> green_button_state m' = HIGH \<or> yellow_button_state m' = HIGH"
proof -
  from assms obtain m1 m2 where
    a: "getButtonColor_await m = Inr m1"
    and h: "getButtonColor_held (getButtonPressed m1)
              (digitalWrite (buttonToLED (getButtonPressed m1)) HIGH m1) = Inr m2"
    and c: "c = buttonToColor (getButtonPressed m1)"
    and m': "m' = digitalWrite (buttonToLED (getButtonPressed m1)) LOW m2"
    by (auto simp: getButtonColor_def Let_def split: sum.splits)
  note ga = getButtonColor_await_game [OF a]
  note gh = getButtonColor_held_game [OF h]
  from ga gh m' show "g_GameState m' = g_GameState m" by simp
  from gh m' have same: "getButtonPressed m' = getButtonPressed m1"
    by (simp add: getButtonPressed_def digitalWrite_def)
  with c show "c = buttonToColor (getButtonPressed m')" by simp
  from ga gh m' show "red_button_state m' = HIGH \<or> blue_button_state m' = HIGH
        \<or> green_button_state m' = HIGH \<or> yellow_button_state m' = HIGH"
    by (simp add: digitalWrite_def)
qed

lemma getButtonColor_await_polls:
  "reads m = replicate (4 * k) LOW @ r # b # g # y # rest \<Longrightarrow>
   r = HIGH \<or> b = HIGH \<or> g = HIGH \<or> y = HIGH \<Longrightarrow>
   getButtonColor_await m =
     Inr (m\<lparr>red_button_state := r, blue_button_state := b, green_button_state := g,
            yellow_button_state := y, reads := rest,
            writes := writes m @ replicate k (Delay 10)\<rparr>)"
proof (induction k arbitrary: m)
  case 0
  then show ?case
    by (subst getButtonColor_await.simps)
       (auto simp: buttonIsPressed_def updateButtonStates_reads)
next
  case (Suc k)
  let ?m1 = "m\<lparr>red_button_state := LOW, blue_button_state := LOW, green_button_state := LOW,
            yellow_button_state := LOW,
            reads := replicate (4 * k) LOW @ r # b # g # y # rest\<rparr>"
  from Suc.prems(1) have rd: "reads m = LOW # LOW # LOW # LOW # replicate (4 * k) LOW @ r # b # g # y # rest"
    by (simp add: numeral_eq_Suc)
  then have b: "buttonIsPressed m = Inr (False, ?m1)"
    by (simp add: buttonIsPressed_def updateButtonStates_reads)
  have "getButtonColor_await (delay 10 ?m1) =
     Inr ((delay 10 ?m1)\<lparr>red_button_state := r, blue_button_state := b, green_button_state := g,
            yellow_button_state := y, reads := rest,
            writes := writes (delay 10 ?m1) @ replicate k (Delay 10)\<rparr>)"
    by (rule Suc.IH) (simp_all add: delay_def Suc.prems(2))
  with b show ?case
    by (subst getButtonColor_await.simps) (simp add: delay_def replicate_append_same)
qed

lemma getButtonColor_held_polls:
  "reads m = replicate n HIGH @ LOW # rest \<Longrightarrow>
   getButtonColor_held p m =
     Inr (m\<lparr>reads := rest, writes := writes m @ replicate n (Delay 10)\<rparr>)"
proof (induction n arbitrary: m)
  case 0
  then show ?case
    by (subst getButtonColor_held.simps) (simp add: digitalRead_def)
next
  case (Suc n)
  let ?m1 = "m\<lparr>reads := replicate n HIGH @ LOW # rest\<rparr>"
  from Suc.prems have d: "digitalRead p m = Inr (HIGH, ?m1)"
    by (simp add: digitalRead_def)
  have "getButtonColor_held p (delay 10 ?m1) =
     Inr ((delay 10 ?m1)\<lparr>reads := rest, writes := writes (delay 10 ?m1) @ replicate n (Delay 10)\<rparr>)"
    by (rule Suc.IH) (simp add: delay_def)
  with d show ?case
    by (subst getButtonColor_held.simps) (simp add: delay_def replicate_append_same)
qed

lemma getButtonColor_polls:
  assumes high: "r = HIGH \<or> b = HIGH \<or> g = HIGH \<or> y = HIGH"
    and rd: "reads m = replicate (4 * k) LOW @ r # b # g # y # replicate n HIGH @ LOW # rest"
    and pin: "pin = getButtonPressed (m\<lparr>red_button_state := r, blue_button_state := b,
                 green_button_state := g, yellow_button_state := y\<rparr>)"
  shows "getButtonColor m =
     Inr (buttonToColor pin,
          m\<lparr>red_button_state := r, blue_button_state := b, green_button_state := g,
            yellow_button_state := y, reads := rest,
            writes := writes m @ replicate k (Delay 10) @ [DigitalWrite (buttonToLED pin) HIGH]
                        @ replicate n (Delay 10) @ [DigitalWrite (buttonToLED pin) LOW]\<rparr>)"
proof -
  let ?m1 = "m\<lparr>red_button_state := r, blue_button_state := b, green_button_state := g,
            yellow_button_state := y, reads := replicate n HIGH @ LOW # rest,
            writes := writes m @ replicate k (Delay 10)\<rparr>"
  have a: "getButtonColor_await m = Inr ?m1"
    by (rule getButtonColor_await_polls [OF rd high])
  have p1: "getButtonPressed ?m1 = pin"
    by (simp add: pin getButtonPressed_def)
  let ?m2 = "digitalWrite (buttonToLED pin) HIGH ?m1"
  have "reads ?m2 = replicate n HIGH @ LOW # rest" by simp
  from getButtonColor_held_polls [OF this, of pin]
  have h: "getButtonColor_held pin ?m2 =
      Inr (?m2\<lparr>reads := rest, writes := writes ?m2 @ replicate n (Delay 10)\<rparr>)" .
  show ?thesis
    unfolding getButtonColor_def a
    by (simp only: sum.case Let_def p1 h) (simp add: digitalWrite_def)
qed

lemma getButtonColor_press:
  assumes c: "c \<in> {RED, BLUE, GREEN, YELLOW}" and rd: "reads m = press c @ rest"
  shows "getButtonColor m =
     Inr (c, m\<lparr>red_button_state := (if c = RED then HIGH else LOW),
                blue_button_state := (if c = BLUE then HIGH else LOW),
                green_button_state := (if c = GREEN then HIGH else LOW),
                yellow_button_state := (if c = YELLOW then HIGH else LOW),
                reads := rest,
                writes := writes m @ [DigitalWrite (colorToLED c) HIGH,
                                      DigitalWrite (colorToLED c) LOW]\<rparr>)"
proof -
  let ?r = "if c = RED then HIGH else LOW" and ?b = "if c = BLUE then HIGH else LOW"
  let ?g = "if c = GREEN then HIGH else LOW" and ?y = "if c = YELLOW then HIGH else LOW"
  let ?pin = "getButtonPressed (m\<lparr>red_button_state := ?r, blue_button_state := ?b,
                 green_button_state := ?g, yellow_button_state := ?y\<rparr>)"
  from rd have rd': "reads m = replicate (4 * 0) LOW @ ?r # ?b # ?g # ?y
                        # replicate 0 HIGH @ LOW # rest"
    by (simp add: press_def)
  from c have high: "?r = HIGH \<or> ?b = HIGH \<or> ?g = HIGH \<or> ?y = HIGH" by auto
  have pin: "buttonToColor ?pin = c" "buttonToLED ?pin = colorToLED c"
    using c by (auto simp: getButtonPressed_def buttonToColor_def buttonToLED_def
        colorToLED_def pin_defs)
  show ?thesis
    unfolding getButtonColor_polls [OF high rd' refl] pin by simp
qed

lemma getButtonColor_times_game:
  "getButtonColor_times n m = Inr (cs, m') \<Longrightarrow>
   g_GameState m' = g_GameState m \<and> length cs = n"
proof (induction n arbitrary: m cs)
  case 0
  then show ?case by simp
next
  case (Suc n)
  from Suc.prems obtain c m1 cs' where
    g: "getButtonColor m = Inr (c, m1)"
    and t: "getButtonColor_times n m1 = Inr (cs', m')"
    and cs: "cs = c # cs'"
    by (auto split: sum.splits)
  from Suc.IH [OF t] getButtonColor_game(1) [OF g] cs show ?case by simp
qed

lemma getButtonColor_times_presses:
  "set cs \<subseteq> {RED, BLUE, GREEN, YELLOW} \<Longrightarrow>
   reads m = concat (map press cs) @ rest \<Longrightarrow>
   \<exists>m'. getButtonColor_times (length cs) m = Inr (cs, m')
       \<and> g_GameState m' = g_GameState m \<and> reads m' = rest
       \<and> writes m' = writes m @ concat (map (\<lambda>c. [DigitalWrite (colorToLED c) HIGH,
                                      DigitalWrite (colorToLED c) LOW]) cs)"
proof (induction cs arbitrary: m)
  case Nil
  then show ?case by simp
next
  case (Cons c cs)
  from Cons.prems have c: "c \<in> {RED, BLUE, GREEN, YELLOW}" by simp
  from Cons.prems have rd: "reads m = press c @ (concat (map press cs) @ rest)" by simp
  note g = getButtonColor_press [OF c rd]
  let ?m1 = "m\<lparr>red_button_state := (if c = RED then HIGH else LOW),
                blue_button_state := (if c = BLUE then HIGH else LOW),
                green_button_state := (if c = GREEN then HIGH else LOW),
                yellow_button_state := (if c = YELLOW then HIGH else LOW),
                reads := concat (map press cs) @ rest,
                writes := writes m @ [DigitalWrite (colorToLED c) HIGH,
                                      DigitalWrite (colorToLED c) LOW]\<rparr>"
  have "\<exists>m'. getButtonColor_times (length cs) ?m1 = Inr (cs, m')
       \<and> g_GameState m' = g_GameState ?m1 \<and> reads m' = rest
       \<and> writes m' = writes ?m1 @ concat (map (\<lambda>c. [DigitalWrite (colorToLED c) HIGH,
                                      DigitalWrite (colorToLED c) LOW]) cs)"
    using Cons.prems by (intro Cons.IH) simp_all
  then obtain m' where "getButtonColor_times (length cs) ?m1 = Inr (cs, m')"
       "g_GameState m' = g_GameState ?m1" "reads m' = rest"
       "writes m' = writes ?m1 @ concat (map (\<lambda>c. [DigitalWrite (colorToLED c) HIGH,
                                      DigitalWrite (colorToLED c) LOW]) cs)"
    by blast
  with g show ?case by simp
qed

subsection \<open>The comparison loop\<close>

lemma startNextRound_from_mismatch:
  "getButtonColor_times (Suc k) m = Inr (cs, m') \<Longrightarrow>
   unat i + k < unat (index (g_GameState m)) \<Longrightarrow>
   unat (index (g_GameState m)) \<le> length (sequence (g_GameState m)) \<Longrightarrow>
   \<forall>j<k. cs ! j = sequence (g_GameState m) ! (unat i + j) \<Longrightarrow>
   cs ! k \<noteq> sequence (g_GameState m) ! (unat i + k) \<Longrightarrow>
   startNextRound_from i m = Inr (m'\<lparr>g_GameState := (g_GameState m')\<lparr>has_lost := True\<rparr>\<rparr>)"
proof (induction k arbitrary: i m cs)
  case 0
  from "0.prems"(1) obtain c where
    g: "getButtonColor m = Inr (c, m')" and cs: "cs = [c]"
    by (auto split: sum.splits)
  have same: "g_GameState m' = g_GameState m" by (rule getButtonColor_game(1) [OF g])
  from "0.prems"(2) have lt: "i < index (g_GameState m)" by (simp add: word_less_nat_alt)
  from "0.prems"(2,3) have load:
    "array_load (sequence (g_GameState m)) (unat i) = Inr (sequence (g_GameState m) ! unat i)"
    by (simp add: array_load_def)
  from "0.prems"(5) cs have "c \<noteq> sequence (g_GameState m) ! unat i" by simp
  with lt g same load show ?case
    by (subst startNextRound_from.simps) simp
next
  case (Suc k)
  from Suc.prems(1) obtain c m1 cs' where
    g: "getButtonColor m = Inr (c, m1)"
    and t: "getButtonColor_times (Suc k) m1 = Inr (cs', m')"
    and cs: "cs = c # cs'"
    by (auto split: sum.splits)
  have same: "g_GameState m1 = g_GameState m" by (rule getButtonColor_game(1) [OF g])
  from Suc.prems(2) have lt: "i < index (g_GameState m)" by (simp add: word_less_nat_alt)
  have suc: "unat (i + 1) = Suc (unat i)" by (rule unat_succ_below [OF lt])
  from Suc.prems(2,3) have load:
    "array_load (sequence (g_GameState m)) (unat i) = Inr (sequence (g_GameState m) ! unat i)"
    by (simp add: array_load_def)
  from Suc.prems(4) cs have c: "c = sequence (g_GameState m) ! unat i" by auto
  have rest: "\<forall>j<k. cs' ! j = sequence (g_GameState m1) ! (unat (i + 1) + j)"
  proof (intro allI impI)
    fix j assume "j < k"
    then have "cs ! Suc j = sequence (g_GameState m) ! (unat i + Suc j)"
      using Suc.prems(4) by simp
    then show "cs' ! j = sequence (g_GameState m1) ! (unat (i + 1) + j)"
      using cs same suc by simp
  qed
  have "startNextRound_from (i + 1) m1 =
          Inr (m'\<lparr>g_GameState := (g_GameState m')\<lparr>has_lost := True\<rparr>\<rparr>)"
    using Suc.prems(2,3,5) cs same suc
    by (intro Suc.IH [OF t _ _ rest]) simp_all
  with lt g same load c show ?case
    by (subst startNextRound_from.simps) simp
qed

lemma startNextRound_from_match:
  "getButtonColor_times n m = Inr (cs, m') \<Longrightarrow>
   unat i + n = unat (index (g_GameState m)) \<Longrightarrow>
   unat (index (g_GameState m)) \<le> length (sequence (g_GameState m)) \<Longrightarrow>
   \<forall>j<n. cs ! j = sequence (g_GameState m) ! (unat i + j) \<Longrightarrow>
   startNextRound_from i m = Inr m'"
proof (induction n arbitrary: i m cs)
  case 0
  then have "\<not> i < index (g_GameState m)" by (simp add: word_less_nat_alt)
  with "0.prems"(1) show ?case
    by (subst startNextRound_from.simps) simp
next
  case (Suc n)
  from Suc.prems(1) obtain c m1 cs' where
    g: "getButtonColor m = Inr (c, m1)"
    and t: "getButtonColor_times n m1 = Inr (cs', m')"
    and cs: "cs = c # cs'"
    by (auto split: sum.splits)
  have same: "g_GameState m1 = g_GameState m" by (rule getButtonColor_game(1) [OF g])
  from Suc.prems(2) have lt: "i < index (g_GameState m)" by (simp add: word_less_nat_alt)
  have suc: "unat (i + 1) = Suc (unat i)" by (rule unat_succ_below [OF lt])
  from Suc.prems(2,3) have load:
    "array_load (sequence (g_GameState m)) (unat i) = Inr (sequence (g_GameState m) ! unat i)"
    by (simp add: array_load_def)
  from Suc.prems(4) cs have c: "c = sequence (g_GameState m) ! unat i" by auto
  have rest: "\<forall>j<n. cs' ! j = sequence (g_GameState m1) ! (unat (i + 1) + j)"
  proof (intro allI impI)
    fix j assume "j < n"
    then have "cs ! Suc j = sequence (g_GameState m) ! (unat i + Suc j)"
      using Suc.prems(4) by simp
    then show "cs' ! j = sequence (g_GameState m1) ! (unat (i + 1) + j)"
      using cs same suc by simp
  qed
  have "startNextRound_from (i + 1) m1 = Inr m'"
    using Suc.prems(2,3) same suc
    by (intro Suc.IH [OF t _ _ rest]) simp_all
  with lt g same load c show ?case
    by (subst startNextRound_from.simps) simp
qed

lemma startNextRound_from_frame:
  "startNextRound_from i m = Inr m' \<Longrightarrow>
   sequence (g_GameState m') = sequence (g_GameState m)
   \<and> index (g_GameState m') = index (g_GameState m)
   \<and> (has_lost (g_GameState m) \<longrightarrow> has_lost (g_GameState m'))"
proof (induction i m rule: startNextRound_from.induct)
  case (1 i m)
  show ?case
  proof (cases "i < index (g_GameState m)")
    case True
    with "1.prems" obtain c m1 expected where
      g: "getButtonColor m = Inr (c, m1)"
      and load: "array_load (sequence (g_GameState m1)) (unat i) = Inr expected"
      and res: "(if c \<noteq> expected
                 then Inr (m1\<lparr>g_GameState := (g_GameState m1)\<lparr>has_lost := True\<rparr>\<rparr>)
                 else startNextRound_from (i + 1) m1) = Inr m'"
      by (subst (asm) startNextRound_from.simps) (auto split: sum.splits)
    have same: "g_GameState m1 = g_GameState m" by (rule getButtonColor_game(1) [OF g])
    show ?thesis
    proof (cases "c \<noteq> expected")
      case True
      with res same show ?thesis by auto
    next
      case False
      with res have rec: "startNextRound_from (i + 1) m1 = Inr m'" by simp
      from "1.IH" [OF True g refl load False rec] same show ?thesis by simp
    qed
  next
    case False
    with "1.prems" have "m' = m"
      by (subst (asm) startNextRound_from.simps) simp
    then show ?thesis by simp
  qed
qed

lemma startNextRound_step:
  assumes "startNextRound r m = Inr m'"
  shows "\<exists>c. Color_of_long r = Some c
           \<and> unat (index (g_GameState m)) < length (sequence (g_GameState m))
           \<and> sequence (g_GameState m') =
               (sequence (g_GameState m))[unat (index (g_GameState m)) := c]
           \<and> index (g_GameState m') = index (g_GameState m) + 1
           \<and> (has_lost (g_GameState m) \<longrightarrow> has_lost (g_GameState m'))"
proof -
  from assms obtain m1 m2 where
    a: "addColor r (delay 250 m) = Inr m1"
    and d: "displaySequence m1 = Inr m2"
    and s: "startNextRound_from 0 (delay 1500 m2) = Inr m'"
    by (auto simp: startNextRound_def split: sum.splits)
  from a obtain c where
    c: "Color_of_long r = Some c"
    and inb: "unat (index (g_GameState m)) < length (sequence (g_GameState m))"
    and g1: "g_GameState m1 = (g_GameState m)
               \<lparr>sequence := (sequence (g_GameState m))[unat (index (g_GameState m)) := c],
                index := index (g_GameState m) + 1\<rparr>"
    by (auto simp: addColor_def array_store_def split: option.splits if_splits)
  from d have "m2 = m1\<lparr>writes := writes m2\<rparr>"
    unfolding displaySequence_def by (rule displaySequence_from_frame)
  then have g2: "g_GameState m2 = g_GameState m1"
    by (metis Machine.select_convs(1) Machine.surjective Machine.update_convs(7))
  from startNextRound_from_frame [OF s] c inb g1 g2 show ?thesis by simp
qed

subsection \<open>The main loop\<close>

lemma showLoss_writes: "showLoss m = m\<lparr>writes := writes m @ loss_animation\<rparr>"
  by (simp add: showLoss_def Let_def digitalWrite_def delay_def loss_animation_def)

lemma loop_times_lost:
  "has_lost (g_GameState m) \<Longrightarrow>
   loop_times rs m =
     Inr (m\<lparr>writes := writes m @ concat (replicate (length rs) loss_animation)\<rparr>)"
proof (induction rs arbitrary: m)
  case Nil
  then show ?case by simp
next
  case (Cons r rs)
  let ?m1 = "m\<lparr>writes := writes m @ loss_animation\<rparr>"
  from Cons.prems have step: "loop r m = Inr ?m1"
    by (simp add: loop_def showLoss_writes)
  have "loop_times rs ?m1 =
     Inr (?m1\<lparr>writes := writes ?m1 @ concat (replicate (length rs) loss_animation)\<rparr>)"
    using Cons.prems by (intro Cons.IH) simp
  with step show ?case by simp
qed

lemma loop_step:
  assumes "loop r m = Inr m'"
  shows "length (sequence (g_GameState m')) = length (sequence (g_GameState m))"
    and "has_lost (g_GameState m) \<longrightarrow> g_GameState m' = g_GameState m"
    and "\<not> has_lost (g_GameState m) \<longrightarrow>
           (\<exists>c. Color_of_long r = Some c
              \<and> unat (index (g_GameState m)) < length (sequence (g_GameState m))
              \<and> sequence (g_GameState m') =
                  (sequence (g_GameState m))[unat (index (g_GameState m)) := c]
              \<and> index (g_GameState m') = index (g_GameState m) + 1)"
proof -
  show "has_lost (g_GameState m) \<longrightarrow> g_GameState m' = g_GameState m"
    using assms by (auto simp: loop_def showLoss_writes)
  show "\<not> has_lost (g_GameState m) \<longrightarrow>
           (\<exists>c. Color_of_long r = Some c
              \<and> unat (index (g_GameState m)) < length (sequence (g_GameState m))
              \<and> sequence (g_GameState m') =
                  (sequence (g_GameState m))[unat (index (g_GameState m)) := c]
              \<and> index (g_GameState m') = index (g_GameState m) + 1)"
  proof
    assume "\<not> has_lost (g_GameState m)"
    with assms have "startNextRound r m = Inr m'" by (simp add: loop_def)
    from startNextRound_step [OF this] show "\<exists>c. Color_of_long r = Some c
              \<and> unat (index (g_GameState m)) < length (sequence (g_GameState m))
              \<and> sequence (g_GameState m') =
                  (sequence (g_GameState m))[unat (index (g_GameState m)) := c]
              \<and> index (g_GameState m') = index (g_GameState m) + 1" by blast
  qed
  then show "length (sequence (g_GameState m')) = length (sequence (g_GameState m))"
    using assms by (cases "has_lost (g_GameState m)") (auto simp: loop_def showLoss_writes)
qed

lemma loop_times_index:
  "loop_times rs m = Inr m' \<Longrightarrow> \<not> has_lost (g_GameState m') \<Longrightarrow>
   length (sequence (g_GameState m)) = 25 \<Longrightarrow>
   unat (index (g_GameState m')) = unat (index (g_GameState m)) + length rs
   \<and> \<not> has_lost (g_GameState m)
   \<and> (rs \<noteq> [] \<longrightarrow> unat (index (g_GameState m')) \<le> 25)"
proof (induction rs arbitrary: m)
  case Nil
  then show ?case by simp
next
  case (Cons r rs)
  from Cons.prems(1) obtain m1 where
    step: "loop r m = Inr m1" and rest: "loop_times rs m1 = Inr m'"
    by (auto split: sum.splits)
  note s = loop_step [OF step]
  from s(1) Cons.prems(3) have len: "length (sequence (g_GameState m1)) = 25" by simp
  from Cons.IH [OF rest Cons.prems(2) len] have
    ih: "unat (index (g_GameState m')) = unat (index (g_GameState m1)) + length rs"
    and nl1: "\<not> has_lost (g_GameState m1)"
    and bound: "rs \<noteq> [] \<longrightarrow> unat (index (g_GameState m')) \<le> 25" by auto
  from nl1 s(2) have nl: "\<not> has_lost (g_GameState m)" by auto
  with s(3) Cons.prems(3) have
    n: "unat (index (g_GameState m)) < 25"
    and i1: "index (g_GameState m1) = index (g_GameState m) + 1"
    by auto
  from n i1 have suc: "unat (index (g_GameState m1)) = Suc (unat (index (g_GameState m)))"
    by (simp add: unat_index_succ)
  have "unat (index (g_GameState m')) \<le> 25"
  proof (cases "rs = []")
    case True
    with ih suc n show ?thesis by simp
  next
    case False
    with bound show ?thesis by simp
  qed
  with ih suc nl show ?case by simp
qed

lemma loop_times_append:
  "loop_times (rs @ rs') m =
     (case loop_times rs m of Inl e \<Rightarrow> Inl e | Inr m' \<Rightarrow> loop_times rs' m')"
  by (induction rs arbitrary: m) (auto split: sum.splits)

subsection \<open>A game without a mistake\<close>

lemma successful_round:
  assumes nl: "\<not> has_lost (g_GameState m)"
    and len: "length (sequence (g_GameState m)) = 25"
    and idx: "unat (index (g_GameState m)) < 25"
    and pl: "set (live (g_GameState m)) \<subseteq> {RED, BLUE, GREEN, YELLOW}"
    and c: "c \<in> {RED, BLUE, GREEN, YELLOW}"
    and rd: "reads m = round_reads (live (g_GameState m) @ [c]) @ rest"
  shows "\<exists>m'. loop (Color_value c) m = Inr m'
           \<and> g_GameState m' = (g_GameState m)
               \<lparr>sequence := (sequence (g_GameState m))[unat (index (g_GameState m)) := c],
                index := index (g_GameState m) + 1\<rparr>
           \<and> reads m' = rest"
proof -
  let ?g = "g_GameState m"
  let ?n = "unat (index ?g)"
  let ?g1 = "?g\<lparr>sequence := (sequence ?g)[?n := c], index := index ?g + 1\<rparr>"
  let ?m1 = "(delay 250 m)\<lparr>g_GameState := ?g1\<rparr>"
  have add: "addColor (Color_value c) (delay 250 m) = Inr ?m1"
    using len idx by (simp add: addColor_def Color_of_long_value array_store_def)
  have n1: "unat (index ?g1) = Suc ?n" using idx by (simp add: unat_index_succ)
  have wf1: "unat (index (g_GameState ?m1)) \<le> length (sequence (g_GameState ?m1))"
    using n1 len idx by simp
  have live1: "live ?g1 = live ?g @ [c]"
    using n1 len idx by (simp add: live_def take_Suc_conv_app_nth)
  let ?m2 = "?m1\<lparr>writes := writes ?m1 @ playback (drop (unat (0 :: u8)) (live (g_GameState ?m1)))\<rparr>"
  have disp: "displaySequence ?m1 = Inr ?m2"
    unfolding displaySequence_def
    by (rule displaySequence_from_writes [OF wf1]) simp
  let ?m3 = "delay 1500 ?m2"
  have g3: "g_GameState ?m3 = ?g1" by simp
  have "set (live ?g1) \<subseteq> {RED, BLUE, GREEN, YELLOW}" using pl c live1 by simp
  moreover have "reads ?m3 = concat (map press (live ?g1)) @ rest"
    using rd live1 by (simp add: round_reads_def delay_def)
  ultimately obtain m' where
    t: "getButtonColor_times (length (live ?g1)) ?m3 = Inr (live ?g1, m')"
    and g': "g_GameState m' = g_GameState ?m3" and r': "reads m' = rest"
    using getButtonColor_times_presses [of "live ?g1" ?m3 rest] by blast
  have ll: "length (live ?g1) = unat (index ?g1)"
    using n1 len idx by (simp add: live_def)
  have cmp: "startNextRound_from 0 ?m3 = Inr m'"
  proof (rule startNextRound_from_match [OF t])
    show "unat (0 :: u8) + length (live ?g1) = unat (index (g_GameState ?m3))"
      using ll by simp
    show "unat (index (g_GameState ?m3)) \<le> length (sequence (g_GameState ?m3))"
      using wf1 by simp
    show "\<forall>j<length (live ?g1). live ?g1 ! j = sequence (g_GameState ?m3) ! (unat (0 :: u8) + j)"
      by (simp add: live_def)
  qed
  have "startNextRound (Color_value c) m = Inr m'"
    by (simp only: startNextRound_def add sum.case disp cmp)
  then have "loop (Color_value c) m = Inr m'"
    using nl by (simp add: loop_def)
  with g' r' show ?thesis by simp
qed

lemma game_reads_snoc:
  "game_reads (cs @ [c]) = game_reads cs @ round_reads (cs @ [c])"
proof -
  have eq: "map (\<lambda>n. round_reads (take n (cs @ [c]))) [1..<Suc (length cs)]
          = map (\<lambda>n. round_reads (take n cs)) [1..<Suc (length cs)]"
    by (rule map_cong) auto
  have "game_reads (cs @ [c]) =
          concat (map (\<lambda>n. round_reads (take n (cs @ [c]))) [1..<Suc (length cs)])
            @ round_reads (take (Suc (length cs)) (cs @ [c]))"
    by (simp add: game_reads_def del: take_append)
  also have "\<dots> = game_reads cs @ round_reads (cs @ [c])"
    unfolding eq by (simp add: game_reads_def)
  finally show ?thesis .
qed

lemma perfect_game:
  "set cs \<subseteq> {RED, BLUE, GREEN, YELLOW} \<Longrightarrow> length cs \<le> 25 \<Longrightarrow>
   \<exists>m. loop_times (map Color_value cs) (power_on (game_reads cs @ rest)) = Inr m
       \<and> g_GameState m =
           \<lparr>has_lost = False, sequence = cs @ replicate (25 - length cs) NO_COLOR,
            index = of_nat (length cs)\<rparr>
       \<and> reads m = rest"
proof (induction cs arbitrary: rest rule: rev_induct)
  case Nil
  then show ?case by (simp add: power_on_def game_reads_def)
next
  case (snoc c cs)
  let ?n = "length cs"
  from snoc.prems have pl: "set cs \<subseteq> {RED, BLUE, GREEN, YELLOW}"
    and c: "c \<in> {RED, BLUE, GREEN, YELLOW}" and n: "?n < 25" by simp_all
  from n have "?n \<le> 25" by simp
  from snoc.IH [OF pl this, of "round_reads (cs @ [c]) @ rest"] obtain m where
    run: "loop_times (map Color_value cs)
            (power_on (game_reads cs @ round_reads (cs @ [c]) @ rest)) = Inr m"
    and g: "g_GameState m =
           \<lparr>has_lost = False, sequence = cs @ replicate (25 - ?n) NO_COLOR,
            index = of_nat ?n\<rparr>"
    and rd: "reads m = round_reads (cs @ [c]) @ rest"
    by blast
  have un: "unat (of_nat ?n :: u8) = ?n"
    using n by (simp add: unat_of_nat)
  have lv: "live (g_GameState m) = cs" using g un by (simp add: live_def)
  have "\<exists>m'. loop (Color_value c) m = Inr m'
           \<and> g_GameState m' = (g_GameState m)
               \<lparr>sequence := (sequence (g_GameState m))[unat (index (g_GameState m)) := c],
                index := index (g_GameState m) + 1\<rparr>
           \<and> reads m' = rest"
    using g un n pl c rd lv by (intro successful_round) simp_all
  then obtain m' where
    step: "loop (Color_value c) m = Inr m'"
    and g': "g_GameState m' = (g_GameState m)
               \<lparr>sequence := (sequence (g_GameState m))[unat (index (g_GameState m)) := c],
                index := index (g_GameState m) + 1\<rparr>"
    and rd': "reads m' = rest"
    by blast
  have rep: "replicate (25 - ?n) NO_COLOR = NO_COLOR # replicate (25 - Suc ?n) NO_COLOR"
    using n by (cases "25 - ?n") (simp_all add: Suc_diff_Suc)
  have seq: "(cs @ replicate (25 - ?n) NO_COLOR)[?n := c]
               = (cs @ [c]) @ replicate (25 - Suc ?n) NO_COLOR"
    by (simp add: rep list_update_append)
  have "loop_times (map Color_value (cs @ [c]))
          (power_on (game_reads (cs @ [c]) @ rest)) = Inr m'"
    using run step by (simp add: loop_times_append game_reads_snoc)
  moreover have "g_GameState m' =
           \<lparr>has_lost = False, sequence = (cs @ [c]) @ replicate (25 - length (cs @ [c])) NO_COLOR,
            index = of_nat (length (cs @ [c]))\<rparr>"
    using g' g un seq by simp
  ultimately show ?case using rd' by blast
qed

subsection \<open>The invariant\<close>

lemma playable_below_index_addColor:
  assumes inv: "playable_below_index (g_GameState m)"
    and r: "random_returns (Color_value RED) (Color_value YELLOW + 1) r"
    and a: "addColor r m = Inr m'"
  shows "playable_below_index (g_GameState m')"
proof -
  from Color_of_long_playable [OF r] obtain c where
    c: "Color_of_long r = Some c" "c \<in> {RED, BLUE, GREEN, YELLOW}" by blast
  let ?n = "unat (index (g_GameState m))"
  from a c(1) have n: "?n < length (sequence (g_GameState m))"
    and g': "g_GameState m' = (g_GameState m)
               \<lparr>sequence := (sequence (g_GameState m))[?n := c],
                index := index (g_GameState m) + 1\<rparr>"
    by (auto simp: addColor_def array_store_def split: if_splits)
  from inv have len: "length (sequence (g_GameState m)) = 25"
    and pl: "\<forall>i<?n. sequence (g_GameState m) ! i \<in> {RED, BLUE, GREEN, YELLOW}"
    by (simp_all add: playable_below_index_def)
  from n len have n25: "?n < 25" by simp
  then have suc: "unat (index (g_GameState m) + 1) = Suc ?n" by (rule unat_index_succ)
  have "\<forall>i<Suc ?n. (sequence (g_GameState m))[?n := c] ! i \<in> {RED, BLUE, GREEN, YELLOW}"
  proof (intro allI impI)
    fix i assume "i < Suc ?n"
    then show "(sequence (g_GameState m))[?n := c] ! i \<in> {RED, BLUE, GREEN, YELLOW}"
      using pl c(2) n by (cases "i = ?n") (simp_all add: less_Suc_eq)
  qed
  with len n25 suc show ?thesis
    by (simp add: playable_below_index_def g')
qed

lemma playable_below_index_loop:
  assumes inv: "playable_below_index (g_GameState m)"
    and r: "random_returns (Color_value RED) (Color_value YELLOW + 1) r"
    and l: "loop r m = Inr m'"
  shows "playable_below_index (g_GameState m')"
proof (cases "has_lost (g_GameState m)")
  case True
  with loop_step(2) [OF l] inv show ?thesis by simp
next
  case False
  with l obtain m1 m2 where
    a: "addColor r (delay 250 m) = Inr m1"
    and d: "displaySequence m1 = Inr m2"
    and s: "startNextRound_from 0 (delay 1500 m2) = Inr m'"
    by (auto simp: loop_def startNextRound_def split: sum.splits)
  from inv have "playable_below_index (g_GameState (delay 250 m))" by simp
  from playable_below_index_addColor [OF this r a]
  have "playable_below_index (g_GameState m1)" .
  with displaySequence_game [OF d] startNextRound_from_frame [OF s]
  show ?thesis by (simp add: playable_below_index_def)
qed

lemma playable_below_index_loop_times:
  "playable_below_index (g_GameState m) \<Longrightarrow>
   \<forall>r\<in>set rs. random_returns (Color_value RED) (Color_value YELLOW + 1) r \<Longrightarrow>
   loop_times rs m = Inr m' \<Longrightarrow> playable_below_index (g_GameState m')"
proof (induction rs arbitrary: m)
  case Nil
  then show ?case by simp
next
  case (Cons r rs)
  from Cons.prems(3) obtain m1 where
    step: "loop r m = Inr m1" and rest: "loop_times rs m1 = Inr m'"
    by (auto split: sum.splits)
  from Cons.prems(2) have r: "random_returns (Color_value RED) (Color_value YELLOW + 1) r"
    and rs: "\<forall>r\<in>set rs. random_returns (Color_value RED) (Color_value YELLOW + 1) r"
    by simp_all
  from playable_below_index_loop [OF Cons.prems(1) r step]
  show ?case by (rule Cons.IH [OF _ rs rest])
qed

subsection \<open>The example machines\<close>

lemma m_two_addColor:
  "addColor 3 m_two =
     Inr (m_two\<lparr>g_GameState :=
            \<lparr>has_lost = False, sequence = [YELLOW, RED, GREEN] @ replicate 22 NO_COLOR,
             index = 3\<rparr>\<rparr>)"
proof -
  have "Color_of_long 3 = Some GREEN" by (simp add: Color_of_long_def)
  moreover have "unat (index (g_GameState m_two)) = 2" by (simp add: m_two_def)
  moreover have "(sequence (g_GameState m_two))[2 := GREEN]
               = [YELLOW, RED, GREEN] @ replicate 22 NO_COLOR"
    by (simp add: m_two_def numeral_eq_Suc)
  moreover have "length (sequence (g_GameState m_two)) = 25" by (simp add: m_two_def)
  ultimately show ?thesis
    by (simp add: addColor_def array_store_def) (simp add: m_two_def)
qed

lemma m_two_displaySequence:
  "displaySequence m_two = Inr (m_two\<lparr>writes := playback [YELLOW, RED]\<rparr>)"
proof -
  have wf: "unat (index (g_GameState m_two)) \<le> length (sequence (g_GameState m_two))"
    by (simp add: m_two_def)
  have "unat (index (g_GameState m_two)) = 2" by (simp add: m_two_def)
  then have "live (g_GameState m_two) = take 2 (sequence (g_GameState m_two))"
    by (simp add: live_def)
  then have "live (g_GameState m_two) = [YELLOW, RED]"
    by (simp add: m_two_def numeral_2_eq_2)
  with displaySequence_from_writes [OF wf, of 0] show ?thesis
    by (simp add: displaySequence_def m_two_def power_on_def)
qed

lemma m_two_playable: "playable_below_index (g_GameState m_two)"
proof -
  have "unat (index (g_GameState m_two)) = 2" by (simp add: m_two_def)
  then show ?thesis
    by (simp add: playable_below_index_def) (simp add: m_two_def less_Suc_eq numeral_2_eq_2)
qed

lemma m_matches_round:
  "\<exists>m'. startNextRound_from 0 m_matches = Inr m' \<and> reads m' = press BLUE"
proof -
  have "set [YELLOW, RED] \<subseteq> {RED, BLUE, GREEN, YELLOW}" by simp
  moreover have "reads m_matches = concat (map press [YELLOW, RED]) @ press BLUE"
    by (simp add: m_matches_def)
  ultimately obtain m' where
    t: "getButtonColor_times (length [YELLOW, RED]) m_matches = Inr ([YELLOW, RED], m')"
    and r: "reads m' = press BLUE"
    using getButtonColor_times_presses by blast
  have "startNextRound_from 0 m_matches = Inr m'"
    by (rule startNextRound_from_match [OF t])
       (simp_all add: m_matches_def m_two_def less_Suc_eq)
  with r show ?thesis by blast
qed

lemma first_round:
  "\<exists>m1. loop 1 (power_on (press RED)) = Inr m1
      \<and> g_GameState m1 =
           \<lparr>has_lost = False, sequence = RED # replicate 24 NO_COLOR, index = 1\<rparr>"
proof -
  have "set [RED] \<subseteq> {RED, BLUE, GREEN, YELLOW}" "length [RED] \<le> 25"
    by simp_all
  from perfect_game [OF this, of "[]"] show ?thesis
    by (auto simp: game_reads_def round_reads_def upt_rec split: sum.splits)
qed

lemma two_rounds:
  "\<exists>m. loop_times [1, 2] (power_on (press RED @ press RED @ press BLUE)) = Inr m
      \<and> \<not> has_lost (g_GameState m)"
proof -
  have "set [RED, BLUE] \<subseteq> {RED, BLUE, GREEN, YELLOW}" "length [RED, BLUE] \<le> 25"
    by simp_all
  from perfect_game [OF this, of "[]"] show ?thesis
    by (auto simp: game_reads_def round_reads_def upt_rec)
qed

section \<open>Properties\<close>

text \<open>
  C1. The comparison phase of \<open>startNextRound\<close>, in a game state with \<open>N = index\<close>
  colours. The player's inputs are the colours that successive calls of
  \<open>getButtonColor\<close> return. If the first \<open>k + 1\<close> inputs are \<open>cs\<close>, the first \<open>k\<close> of them
  equal the stored sequence and input \<open>k\<close> differs from \<open>sequence[k]\<close>, with \<open>k < N\<close>,
  then the phase returns the machine as it is after exactly those \<open>k + 1\<close> calls, with
  \<open>has_lost\<close> set: the inputs for the positions \<open>k + 1\<close> to \<open>N - 1\<close> are not read. If all
  \<open>N\<close> inputs equal the stored sequence, the phase returns the machine as it is after
  the \<open>N\<close> calls, with the game state, and so \<open>has_lost\<close>, as it was.
\<close>

theorem startNextRound_from_first_mismatch:
  assumes "unat (index (g_GameState m)) \<le> length (sequence (g_GameState m))"
  shows "(getButtonColor_times (Suc k) m = Inr (cs, m')
            \<and> k < unat (index (g_GameState m))
            \<and> (\<forall>j<k. cs ! j = sequence (g_GameState m) ! j)
            \<and> cs ! k \<noteq> sequence (g_GameState m) ! k
          \<longrightarrow> startNextRound_from 0 m =
                Inr (m'\<lparr>g_GameState := (g_GameState m)\<lparr>has_lost := True\<rparr>\<rparr>))
       \<and> (getButtonColor_times (unat (index (g_GameState m))) m = Inr (cs, m')
            \<and> (\<forall>j<unat (index (g_GameState m)). cs ! j = sequence (g_GameState m) ! j)
          \<longrightarrow> startNextRound_from 0 m = Inr m' \<and> g_GameState m' = g_GameState m)"
proof (intro conjI impI)
  assume h: "getButtonColor_times (Suc k) m = Inr (cs, m')
            \<and> k < unat (index (g_GameState m))
            \<and> (\<forall>j<k. cs ! j = sequence (g_GameState m) ! j)
            \<and> cs ! k \<noteq> sequence (g_GameState m) ! k"
  then have t: "getButtonColor_times (Suc k) m = Inr (cs, m')" by simp
  have same: "g_GameState m' = g_GameState m"
    using getButtonColor_times_game [OF t] by simp
  have "startNextRound_from 0 m =
          Inr (m'\<lparr>g_GameState := (g_GameState m')\<lparr>has_lost := True\<rparr>\<rparr>)"
    using h assms by (intro startNextRound_from_mismatch [OF t]) simp_all
  with same show "startNextRound_from 0 m =
          Inr (m'\<lparr>g_GameState := (g_GameState m)\<lparr>has_lost := True\<rparr>\<rparr>)" by simp
next
  assume h: "getButtonColor_times (unat (index (g_GameState m))) m = Inr (cs, m')
            \<and> (\<forall>j<unat (index (g_GameState m)). cs ! j = sequence (g_GameState m) ! j)"
  then have t: "getButtonColor_times (unat (index (g_GameState m))) m = Inr (cs, m')"
    by simp
  show "startNextRound_from 0 m = Inr m'"
    using h assms by (intro startNextRound_from_match [OF t]) simp_all
  show "g_GameState m' = g_GameState m"
    using getButtonColor_times_game [OF t] by simp
qed

theorem startNextRound_from_first_mismatch_witness:
  "unat (index (g_GameState m_presses)) \<le> length (sequence (g_GameState m_presses))
   \<and> (\<exists>m'. getButtonColor_times 2 m_presses = Inr ([YELLOW, GREEN], m')
         \<and> reads m' = press BLUE
         \<and> startNextRound_from 0 m_presses =
             Inr (m'\<lparr>g_GameState := (g_GameState m_presses)\<lparr>has_lost := True\<rparr>\<rparr>))
   \<and> (\<exists>m'. getButtonColor_times 2 m_matches = Inr ([YELLOW, RED], m')
         \<and> reads m' = press BLUE
         \<and> \<not> has_lost (g_GameState m')
         \<and> startNextRound_from 0 m_matches = Inr m')"
proof -
  have wf: "unat (index (g_GameState m_presses)) \<le> length (sequence (g_GameState m_presses))"
    by (simp add: m_presses_def m_two_def)
  have "set [YELLOW, GREEN] \<subseteq> {RED, BLUE, GREEN, YELLOW}" by simp
  moreover have "reads m_presses = concat (map press [YELLOW, GREEN]) @ press BLUE"
    by (simp add: m_presses_def)
  ultimately obtain m' where
    t: "getButtonColor_times (length [YELLOW, GREEN]) m_presses = Inr ([YELLOW, GREEN], m')"
    and r: "reads m' = press BLUE"
    using getButtonColor_times_presses by blast
  from t have t': "getButtonColor_times (Suc 1) m_presses = Inr ([YELLOW, GREEN], m')"
    by simp
  have lost: "startNextRound_from 0 m_presses =
          Inr (m'\<lparr>g_GameState := (g_GameState m_presses)\<lparr>has_lost := True\<rparr>\<rparr>)"
    using startNextRound_from_first_mismatch [OF wf, of 1 "[YELLOW, GREEN]" m'] t'
    by (simp add: m_presses_def m_two_def)
  have wf2: "unat (index (g_GameState m_matches)) \<le> length (sequence (g_GameState m_matches))"
    by (simp add: m_matches_def m_two_def)
  have n2: "unat (index (g_GameState m_matches)) = 2"
    by (simp add: m_matches_def m_two_def)
  have "set [YELLOW, RED] \<subseteq> {RED, BLUE, GREEN, YELLOW}" by simp
  moreover have "reads m_matches = concat (map press [YELLOW, RED]) @ press BLUE"
    by (simp add: m_matches_def)
  ultimately obtain m2 where
    t2: "getButtonColor_times (length [YELLOW, RED]) m_matches = Inr ([YELLOW, RED], m2)"
    and r2: "reads m2 = press BLUE"
    using getButtonColor_times_presses by blast
  have len2: "length [YELLOW, RED] = 2" by simp
  note t2' = t2 [unfolded len2]
  have all: "\<forall>j<2. [YELLOW, RED] ! j = sequence (g_GameState m_matches) ! j"
    by (simp add: m_matches_def m_two_def less_Suc_eq numeral_2_eq_2)
  from startNextRound_from_first_mismatch [OF wf2, of 0 "[YELLOW, RED]" m2] t2' all
  have won: "startNextRound_from 0 m_matches = Inr m2"
    and same: "g_GameState m2 = g_GameState m_matches"
    unfolding n2 by simp_all
  from same have nl: "\<not> has_lost (g_GameState m2)"
    by (simp add: m_matches_def m_two_def)
  have "length [YELLOW, GREEN] = 2" by simp
  from t [unfolded this] wf r lost t2' r2 nl won show ?thesis by blast
qed

text \<open>
  C2. Once \<open>has_lost\<close> is true, an iteration of the main loop is the loss animation
  and nothing else: it leaves \<open>has_lost\<close>, \<open>sequence\<close> and \<open>index\<close> as they are. So after any
  number of further iterations \<open>has_lost\<close> is still true, the game state is the same,
  no input has been read, and the writes are one loss animation for each iteration.
\<close>

theorem lost_is_terminal:
  assumes "has_lost (g_GameState m)"
  shows "loop r m = Inr (showLoss m)
       \<and> showLoss m = m\<lparr>writes := writes m @ loss_animation\<rparr>
       \<and> g_GameState (showLoss m) = g_GameState m
       \<and> (\<exists>m'. loop_times rs m = Inr m'
              \<and> has_lost (g_GameState m')
              \<and> g_GameState m' = g_GameState m
              \<and> reads m' = reads m
              \<and> writes m' = writes m @ concat (replicate (length rs) loss_animation))"
  using assms loop_times_lost [OF assms, of rs]
  by (simp add: loop_def showLoss_writes)

theorem lost_is_terminal_witness:
  "has_lost (g_GameState m_lost)
   \<and> loop 3 m_lost = Inr (m_lost\<lparr>writes := loss_animation\<rparr>)
   \<and> (\<exists>m'. loop_times [1, 2] m_lost = Inr m'
          \<and> g_GameState m' = g_GameState m_lost
          \<and> reads m' = press YELLOW
          \<and> writes m' = loss_animation @ loss_animation)"
proof -
  have l: "has_lost (g_GameState m_lost)" by (simp add: m_lost_def)
  have w: "writes m_lost = []" "reads m_lost = press YELLOW"
    by (simp_all add: m_lost_def m_two_def power_on_def)
  from lost_is_terminal [OF l, of 3 "[1, 2]"] l w show ?thesis by auto
qed

text \<open>
  C3. From the initial state, after \<open>N\<close> iterations of the main loop that leave
  \<open>has_lost\<close> false, \<open>index\<close> is \<open>N\<close>; there are such runs for \<open>N\<close> up to 25 only, since
  the 26th round writes outside the buffer. One iteration that starts with \<open>has_lost\<close>
  false and returns adds exactly one to \<open>index\<close>.
\<close>

theorem index_counts_successful_rounds:
  "(loop_times rs (power_on rd) = Inr m \<and> \<not> has_lost (g_GameState m)
      \<longrightarrow> unat (index (g_GameState m)) = length rs \<and> length rs \<le> 25)
   \<and> (loop r m0 = Inr m1 \<and> \<not> has_lost (g_GameState m0)
      \<longrightarrow> index (g_GameState m1) = index (g_GameState m0) + 1)"
proof (intro conjI impI)
  assume h: "loop_times rs (power_on rd) = Inr m \<and> \<not> has_lost (g_GameState m)"
  have "length (sequence (g_GameState (power_on rd))) = 25" by (simp add: power_on_def)
  with h loop_times_index [of rs "power_on rd" m]
  have n: "unat (index (g_GameState m)) = length rs"
    and b: "rs \<noteq> [] \<longrightarrow> unat (index (g_GameState m)) \<le> 25"
    by (auto simp: power_on_def)
  from n show "unat (index (g_GameState m)) = length rs" .
  from n b show "length rs \<le> 25" by (cases "rs = []") simp_all
next
  assume "loop r m0 = Inr m1 \<and> \<not> has_lost (g_GameState m0)"
  with loop_step(3) [of r m0 m1]
  show "index (g_GameState m1) = index (g_GameState m0) + 1" by auto
qed

theorem index_counts_successful_rounds_witness:
  "\<exists>m m1. loop_times [1, 2] (power_on (press RED @ press RED @ press BLUE)) = Inr m
      \<and> \<not> has_lost (g_GameState m)
      \<and> unat (index (g_GameState m)) = 2
      \<and> loop 1 (power_on (press RED)) = Inr m1
      \<and> \<not> has_lost (g_GameState (power_on (press RED)))
      \<and> index (g_GameState m1) = 1"
proof -
  have "set [RED, BLUE] \<subseteq> {RED, BLUE, GREEN, YELLOW}" "length [RED, BLUE] \<le> 25"
    by simp_all
  from perfect_game [OF this, of "[]"] obtain m where
    run: "loop_times [1, 2] (power_on (press RED @ press RED @ press BLUE)) = Inr m"
    and nl: "\<not> has_lost (g_GameState m)"
    by (auto simp: game_reads_def round_reads_def upt_rec)
  have "set [RED] \<subseteq> {RED, BLUE, GREEN, YELLOW}" "length [RED] \<le> 25"
    by simp_all
  from perfect_game [OF this, of "[]"] obtain m1 where
    step: "loop 1 (power_on (press RED)) = Inr m1"
    by (auto simp: game_reads_def round_reads_def upt_rec split: sum.splits)
  have nl0: "\<not> has_lost (g_GameState (power_on (press RED)))"
    by (simp add: power_on_def)
  from index_counts_successful_rounds
    [of "[1, 2]" "press RED @ press RED @ press BLUE" m 1 "power_on (press RED)" m1]
    run nl step nl0
  have "unat (index (g_GameState m)) = 2" "index (g_GameState m1) = 1"
    by (simp_all add: power_on_def)
  with run nl step nl0 show ?thesis by blast
qed

text \<open>
  C4. \<open>addColor\<close>, given a value \<open>r\<close> that \<open>random(RED, YELLOW + 1)\<close> can return and a
  state with \<open>index < 25\<close>, stores at position \<open>index\<close> the colour whose enumerator value
  is \<open>r\<close>, one of Red, Blue, Green and Yellow and never \<open>NO_COLOR\<close>, and adds one to
  \<open>index\<close>; nothing else changes. Each of the four playable colours is stored for
  exactly one of the values \<open>random\<close> can return, so a uniform draw of \<open>random\<close> is a
  uniform draw of the colour.
\<close>

theorem addColor_appends_playable:
  assumes r: "random_returns (Color_value RED) (Color_value YELLOW + 1) r"
    and len: "length (sequence (g_GameState m)) = 25"
    and idx: "index (g_GameState m) < 25"
  shows "\<exists>c. Color_of_long r = Some c
           \<and> c \<in> {RED, BLUE, GREEN, YELLOW} \<and> c \<noteq> NO_COLOR \<and> Color_value c = r
           \<and> addColor r m =
               Inr (m\<lparr>g_GameState := (g_GameState m)
                      \<lparr>sequence := (sequence (g_GameState m))[unat (index (g_GameState m)) := c],
                       index := index (g_GameState m) + 1\<rparr>\<rparr>)
           \<and> (sequence (g_GameState m))[unat (index (g_GameState m)) := c]
                 ! unat (index (g_GameState m)) = c
           \<and> unat (index (g_GameState m) + 1) = unat (index (g_GameState m)) + 1
           \<and> (\<forall>c' \<in> {RED, BLUE, GREEN, YELLOW}.
                 \<exists>!r'. random_returns (Color_value RED) (Color_value YELLOW + 1) r'
                        \<and> Color_of_long r' = Some c')"
proof -
  from Color_of_long_playable [OF r] obtain c where
    c: "Color_of_long r = Some c" "c \<in> {RED, BLUE, GREEN, YELLOW}" "Color_value c = r"
    by blast
  from idx have n: "unat (index (g_GameState m)) < 25"
    by (simp add: word_less_nat_alt)
  have "addColor r m =
               Inr (m\<lparr>g_GameState := (g_GameState m)
                      \<lparr>sequence := (sequence (g_GameState m))[unat (index (g_GameState m)) := c],
                       index := index (g_GameState m) + 1\<rparr>\<rparr>)"
    using c(1) n len by (simp add: addColor_def array_store_def)
  moreover have "\<forall>c' \<in> {RED, BLUE, GREEN, YELLOW}.
                 \<exists>!r'. random_returns (Color_value RED) (Color_value YELLOW + 1) r'
                        \<and> Color_of_long r' = Some c'"
  proof
    fix c' assume c': "c' \<in> {RED, BLUE, GREEN, YELLOW}"
    show "\<exists>!r'. random_returns (Color_value RED) (Color_value YELLOW + 1) r'
                        \<and> Color_of_long r' = Some c'"
    proof (rule ex1I [of _ "Color_value c'"])
      show "random_returns (Color_value RED) (Color_value YELLOW + 1) (Color_value c')
              \<and> Color_of_long (Color_value c') = Some c'"
        using c' by (auto simp: random_returns_def Color_of_long_value)
    next
      fix r' assume "random_returns (Color_value RED) (Color_value YELLOW + 1) r'
                        \<and> Color_of_long r' = Some c'"
      with Color_of_long_playable [of r'] show "r' = Color_value c'" by auto
    qed
  qed
  ultimately show ?thesis using c n len by (auto simp: unat_index_succ)
qed

theorem addColor_appends_playable_witness:
  "random_returns (Color_value RED) (Color_value YELLOW + 1) 3
   \<and> length (sequence (g_GameState m_two)) = 25
   \<and> index (g_GameState m_two) < 25
   \<and> addColor 3 m_two =
       Inr (m_two\<lparr>g_GameState :=
              \<lparr>has_lost = False, sequence = [YELLOW, RED, GREEN] @ replicate 22 NO_COLOR,
               index = 3\<rparr>\<rparr>)"
proof -
  have r: "random_returns (Color_value RED) (Color_value YELLOW + 1) 3"
    by (simp add: random_returns_def)
  have len: "length (sequence (g_GameState m_two)) = 25" by (simp add: m_two_def)
  have idx: "index (g_GameState m_two) < 25" by (simp add: m_two_def)
  from addColor_appends_playable [OF r len idx] obtain c where
    c: "Color_value c = 3"
    and a: "addColor 3 m_two =
               Inr (m_two\<lparr>g_GameState := (g_GameState m_two)
                      \<lparr>sequence := (sequence (g_GameState m_two))
                                     [unat (index (g_GameState m_two)) := c],
                       index := index (g_GameState m_two) + 1\<rparr>\<rparr>)"
    by blast
  from c have g: "c = GREEN" by (cases c) simp_all
  have u: "unat (index (g_GameState m_two)) = 2" by (simp add: m_two_def)
  have upd: "(sequence (g_GameState m_two))[2 := GREEN]
               = [YELLOW, RED, GREEN] @ replicate 22 NO_COLOR"
    by (simp add: m_two_def numeral_eq_Suc)
  have "addColor 3 m_two =
       Inr (m_two\<lparr>g_GameState :=
              \<lparr>has_lost = False, sequence = [YELLOW, RED, GREEN] @ replicate 22 NO_COLOR,
               index = 3\<rparr>\<rparr>)"
    unfolding a g u upd by (simp add: m_two_def)
  with r len idx show ?thesis by blast
qed

text \<open>
  C5. In a game state with \<open>N = index\<close> colours (at most the capacity of the buffer),
  \<open>displaySequence\<close> returns, and what it writes is exactly \<open>N\<close> pulses, one for each
  stored element in the stored order: the \<open>i\<close>-th pulse drives the LED of
  \<open>sequence[i]\<close>. The game state, and everything else but the writes, is unchanged.
\<close>

theorem displaySequence_pulses:
  assumes "unat (index (g_GameState m)) \<le> length (sequence (g_GameState m))"
  shows "\<exists>m' evs. displaySequence m = Inr m'
           \<and> g_GameState m' = g_GameState m
           \<and> m' = m\<lparr>writes := writes m @ evs\<rparr>
           \<and> evs = concat (map (\<lambda>i. pulse (sequence (g_GameState m) ! i) @ [Delay 250])
                               [0..<unat (index (g_GameState m))])
           \<and> length (filter is_rising evs) = unat (index (g_GameState m))"
proof -
  let ?g = "g_GameState m"
  have run: "displaySequence m = Inr (m\<lparr>writes := writes m @ playback (live ?g)\<rparr>)"
    using displaySequence_from_writes [OF assms, of 0] by (simp add: displaySequence_def)
  have shape: "playback (live ?g) =
      concat (map (\<lambda>i. pulse (sequence ?g ! i) @ [Delay 250]) [0..<unat (index ?g)])"
    by (simp add: playback_def live_by_index [OF assms] comp_def)
  have count: "length (filter is_rising (playback (live ?g))) = unat (index ?g)"
    using assms by (simp add: rising_playback live_def)
  from run shape count show ?thesis by simp
qed

theorem displaySequence_pulses_witness:
  "unat (index (g_GameState m_two)) \<le> length (sequence (g_GameState m_two))
   \<and> (\<exists>m'. displaySequence m_two = Inr m'
      \<and> g_GameState m' = g_GameState m_two
      \<and> writes m' = [DigitalWrite YELLOW_LED HIGH, Delay 500, DigitalWrite YELLOW_LED LOW, Delay 250,
                     DigitalWrite RED_LED HIGH, Delay 500, DigitalWrite RED_LED LOW, Delay 250])"
proof -
  have idx: "unat (index (g_GameState m_two)) = 2" by (simp add: m_two_def)
  have wf: "unat (index (g_GameState m_two)) \<le> length (sequence (g_GameState m_two))"
    by (simp add: m_two_def)
  from displaySequence_pulses [OF wf] have
    "\<exists>m'. displaySequence m_two = Inr m'
      \<and> g_GameState m' = g_GameState m_two
      \<and> writes m' = [DigitalWrite YELLOW_LED HIGH, Delay 500, DigitalWrite YELLOW_LED LOW, Delay 250,
                     DigitalWrite RED_LED HIGH, Delay 500, DigitalWrite RED_LED LOW, Delay 250]"
    unfolding idx
    by (auto simp: m_two_def power_on_def pulse_def colorToLED_def upt_rec numeral_2_eq_2)
  with wf show ?thesis by blast
qed

text \<open>
  C6. For every combination of levels of the four button lines with at least one line
  high, \<open>getButtonPressed\<close> returns the first high line in the order Red, Blue, Green,
  Yellow, and \<open>buttonToColor\<close> maps that pin to the colour of the same button. When
  \<open>getButtonColor\<close> sees these levels in a poll, after \<open>k\<close> polls that found all lines
  low, and the selected line then reads high \<open>n\<close> times and low once, it returns that
  colour, having lit the colour's LED while the button was held.
\<close>

theorem getButtonPressed_priority:
  assumes high: "r = HIGH \<or> b = HIGH \<or> g = HIGH \<or> y = HIGH"
  shows "\<exists>pin c.
      find (\<lambda>(p, l). l = HIGH)
           [(RED_BUTTON, r), (BLUE_BUTTON, b), (GREEN_BUTTON, g), (YELLOW_BUTTON, y)]
        = Some (pin, HIGH)
      \<and> getButtonPressed (m\<lparr>red_button_state := r, blue_button_state := b,
                             green_button_state := g, yellow_button_state := y\<rparr>) = pin
      \<and> (pin, c) \<in> {(RED_BUTTON, RED), (BLUE_BUTTON, BLUE),
                      (GREEN_BUTTON, GREEN), (YELLOW_BUTTON, YELLOW)}
      \<and> buttonToColor pin = c
      \<and> (reads m = replicate (4 * k) LOW @ r # b # g # y # replicate n HIGH @ LOW # rest
           \<longrightarrow> (\<exists>m'. getButtonColor m = Inr (c, m')
                  \<and> g_GameState m' = g_GameState m
                  \<and> reads m' = rest
                  \<and> writes m' = writes m @ replicate k (Delay 10)
                       @ [DigitalWrite (colorToLED c) HIGH]
                       @ replicate n (Delay 10) @ [DigitalWrite (colorToLED c) LOW]))"
proof -
  let ?ms = "m\<lparr>red_button_state := r, blue_button_state := b,
                green_button_state := g, yellow_button_state := y\<rparr>"
  let ?pin = "getButtonPressed ?ms"
  let ?c = "buttonToColor ?pin"
  have f: "find (\<lambda>(p, l). l = HIGH)
           [(RED_BUTTON, r), (BLUE_BUTTON, b), (GREEN_BUTTON, g), (YELLOW_BUTTON, y)]
        = Some (?pin, HIGH)"
    using high by (auto simp: getButtonPressed_def)
  have pc: "(?pin, ?c) \<in> {(RED_BUTTON, RED), (BLUE_BUTTON, BLUE),
                      (GREEN_BUTTON, GREEN), (YELLOW_BUTTON, YELLOW)}"
    using high by (auto simp: getButtonPressed_def buttonToColor_def pin_defs)
  have led: "buttonToLED ?pin = colorToLED ?c"
    by (simp add: colorToLED_def buttonToColor_def buttonToLED_def pin_defs)
  have run: "reads m = replicate (4 * k) LOW @ r # b # g # y # replicate n HIGH @ LOW # rest
           \<longrightarrow> (\<exists>m'. getButtonColor m = Inr (?c, m')
                  \<and> g_GameState m' = g_GameState m
                  \<and> reads m' = rest
                  \<and> writes m' = writes m @ replicate k (Delay 10)
                       @ [DigitalWrite (colorToLED ?c) HIGH]
                       @ replicate n (Delay 10) @ [DigitalWrite (colorToLED ?c) LOW])"
  proof
    assume rd: "reads m = replicate (4 * k) LOW @ r # b # g # y # replicate n HIGH @ LOW # rest"
    from getButtonColor_polls [OF high rd refl] led
    show "\<exists>m'. getButtonColor m = Inr (?c, m')
                  \<and> g_GameState m' = g_GameState m
                  \<and> reads m' = rest
                  \<and> writes m' = writes m @ replicate k (Delay 10)
                       @ [DigitalWrite (colorToLED ?c) HIGH]
                       @ replicate n (Delay 10) @ [DigitalWrite (colorToLED ?c) LOW]"
      by simp
  qed
  from f pc run show ?thesis by blast
qed

theorem getButtonPressed_priority_witness:
  "(LOW = HIGH \<or> LOW = HIGH \<or> HIGH = HIGH \<or> HIGH = HIGH)
   \<and> getButtonPressed (m_two_buttons\<lparr>red_button_state := LOW, blue_button_state := LOW,
                             green_button_state := HIGH, yellow_button_state := HIGH\<rparr>)
        = GREEN_BUTTON
   \<and> (\<exists>m'. getButtonColor m_two_buttons = Inr (GREEN, m')
          \<and> reads m' = [HIGH]
          \<and> writes m' = [Delay 10, DigitalWrite GREEN_LED HIGH, Delay 10, Delay 10,
                         DigitalWrite GREEN_LED LOW])"
proof -
  have high: "LOW = HIGH \<or> LOW = HIGH \<or> HIGH = HIGH \<or> HIGH = HIGH" by simp
  have rd: "reads m_two_buttons =
      replicate (4 * 1) LOW @ LOW # LOW # HIGH # HIGH # replicate 2 HIGH @ LOW # [HIGH]"
    by (simp add: m_two_buttons_def numeral_eq_Suc)
  have w: "writes m_two_buttons = []"
    by (simp add: m_two_buttons_def m_two_def power_on_def)
  from getButtonPressed_priority [OF high, of m_two_buttons 1 2 "[HIGH]"]
  obtain pin c where
    f: "find (\<lambda>(p, l). l = HIGH)
         [(RED_BUTTON, LOW), (BLUE_BUTTON, LOW), (GREEN_BUTTON, HIGH), (YELLOW_BUTTON, HIGH)]
        = Some (pin, HIGH)"
    and p: "getButtonPressed (m_two_buttons\<lparr>red_button_state := LOW, blue_button_state := LOW,
                             green_button_state := HIGH, yellow_button_state := HIGH\<rparr>) = pin"
    and c: "buttonToColor pin = c"
    and run: "reads m_two_buttons =
                replicate (4 * 1) LOW @ LOW # LOW # HIGH # HIGH # replicate 2 HIGH @ LOW # [HIGH]
              \<longrightarrow> (\<exists>m'. getButtonColor m_two_buttons = Inr (c, m')
                  \<and> g_GameState m' = g_GameState m_two_buttons
                  \<and> reads m' = [HIGH]
                  \<and> writes m' = writes m_two_buttons @ replicate 1 (Delay 10)
                       @ [DigitalWrite (colorToLED c) HIGH]
                       @ replicate 2 (Delay 10) @ [DigitalWrite (colorToLED c) LOW])"
    by blast
  from f have pin: "pin = GREEN_BUTTON" by simp
  with c have col: "c = GREEN" by (simp add: buttonToColor_def pin_defs)
  from run rd w col obtain m' where
    "getButtonColor m_two_buttons = Inr (GREEN, m')" "reads m' = [HIGH]"
    "writes m' = [Delay 10, DigitalWrite GREEN_LED HIGH, Delay 10, Delay 10,
                         DigitalWrite GREEN_LED LOW]"
    by (auto simp: colorToLED_def numeral_2_eq_2)
  with high p pin show ?thesis by blast
qed

text \<open>
  C7. \<open>addColor\<close> does not check the capacity of the 25-element buffer. Its write to
  \<open>sequence[index]\<close> is in bounds, and the call returns a state, if and only if
  \<open>index < 25\<close>; for \<open>index\<close> of 25 or more the write is out of bounds, and so is the
  round that makes the call. Such a state is reached: after 25 rounds that the player
  wins, \<open>index\<close> is 25 and the next iteration of the main loop writes out of bounds.
\<close>

theorem addColor_unchecked_capacity:
  assumes r: "random_returns (Color_value RED) (Color_value YELLOW + 1) r"
    and len: "length (sequence (g_GameState m)) = 25"
  shows "((\<exists>m'. addColor r m = Inr m') \<longleftrightarrow> index (g_GameState m) < 25)
       \<and> (\<not> index (g_GameState m) < 25
            \<longrightarrow> addColor r m = Inl OutOfBounds \<and> startNextRound r m = Inl OutOfBounds)
       \<and> (\<exists>rd rs m25. loop_times rs (power_on rd) = Inr m25
              \<and> \<not> has_lost (g_GameState m25)
              \<and> length (sequence (g_GameState m25)) = 25
              \<and> index (g_GameState m25) = 25
              \<and> loop r m25 = Inl OutOfBounds)"
proof (intro conjI)
  show "(\<exists>m'. addColor r m = Inr m') \<longleftrightarrow> index (g_GameState m) < 25"
  proof (cases "index (g_GameState m) < 25")
    case True
    then have "unat (index (g_GameState m)) < 25" by (simp add: word_less_nat_alt)
    with Color_of_long_playable [OF r] len True show ?thesis
      by (auto simp: addColor_def array_store_def)
  next
    case False
    with addColor_out_of_bounds [OF r len] show ?thesis by simp
  qed
next
  show "\<not> index (g_GameState m) < 25
            \<longrightarrow> addColor r m = Inl OutOfBounds \<and> startNextRound r m = Inl OutOfBounds"
  proof
    assume idx: "\<not> index (g_GameState m) < 25"
    have "addColor r (delay 250 m) = Inl OutOfBounds"
      using len idx by (intro addColor_out_of_bounds [OF r]) simp_all
    then have "startNextRound r m = Inl OutOfBounds" by (simp add: startNextRound_def)
    with addColor_out_of_bounds [OF r len idx]
    show "addColor r m = Inl OutOfBounds \<and> startNextRound r m = Inl OutOfBounds" by simp
  qed
next
  have "set (replicate 25 RED) \<subseteq> {RED, BLUE, GREEN, YELLOW}" "length (replicate 25 RED) \<le> 25"
    by simp_all
  from perfect_game [OF this, of "[]"] obtain m25 where
    run: "loop_times (map Color_value (replicate 25 RED))
            (power_on (game_reads (replicate 25 RED) @ [])) = Inr m25"
    and g: "g_GameState m25 = \<lparr>has_lost = False, sequence = replicate 25 RED, index = 25\<rparr>"
    by auto
  have "addColor r (delay 250 m25) = Inl OutOfBounds"
    using g by (intro addColor_out_of_bounds [OF r]) simp_all
  then have "loop r m25 = Inl OutOfBounds"
    using g by (simp add: loop_def startNextRound_def)
  with run g show "\<exists>rd rs m25. loop_times rs (power_on rd) = Inr m25
              \<and> \<not> has_lost (g_GameState m25)
              \<and> length (sequence (g_GameState m25)) = 25
              \<and> index (g_GameState m25) = 25
              \<and> loop r m25 = Inl OutOfBounds"
    by (intro exI [of _ "game_reads (replicate 25 RED) @ []"]
              exI [of _ "map Color_value (replicate 25 RED)"] exI [of _ m25]) simp
qed

theorem addColor_unchecked_capacity_witness:
  "random_returns (Color_value RED) (Color_value YELLOW + 1) 4
   \<and> length (sequence (g_GameState m_full)) = 25
   \<and> \<not> index (g_GameState m_full) < 25
   \<and> addColor 4 m_full = Inl OutOfBounds
   \<and> startNextRound 4 m_full = Inl OutOfBounds
   \<and> length (sequence (g_GameState m_two)) = 25
   \<and> index (g_GameState m_two) < 25
   \<and> (\<exists>m'. addColor 4 m_two = Inr m')"
proof -
  have r: "random_returns (Color_value RED) (Color_value YELLOW + 1) 4"
    by (simp add: random_returns_def)
  have len: "length (sequence (g_GameState m_full)) = 25" by (simp add: m_full_def)
  have idx: "\<not> index (g_GameState m_full) < 25" by (simp add: m_full_def)
  have len2: "length (sequence (g_GameState m_two)) = 25" by (simp add: m_two_def)
  have idx2: "index (g_GameState m_two) < 25" by (simp add: m_two_def)
  from addColor_unchecked_capacity [OF r len] idx
  have "addColor 4 m_full = Inl OutOfBounds" "startNextRound 4 m_full = Inl OutOfBounds"
    by simp_all
  moreover from addColor_unchecked_capacity [OF r len2] idx2
  have "\<exists>m'. addColor 4 m_two = Inr m'" by simp
  ultimately show ?thesis using r len idx len2 idx2 by simp
qed

text \<open>
  C8. The sequence is append-only. In a state with \<open>index = n < 25\<close>, a call of
  \<open>addColor\<close> that returns leaves \<open>sequence[0..n)\<close> and \<open>has_lost\<close> as they are: it changes
  \<open>sequence[n]\<close> and \<open>index\<close> and nothing else in the machine. No other operation of the
  main loop writes an element of \<open>sequence\<close>: \<open>displaySequence\<close>, \<open>getButtonColor\<close>,
  \<open>showLoss\<close> and \<open>delay\<close> leave the whole game state as it is, and the comparison loop
  leaves \<open>sequence\<close> and \<open>index\<close> as they are. So one iteration of the main loop leaves
  every element of \<open>sequence\<close> but the one at the old \<open>index\<close> as it is.
\<close>

theorem sequence_append_only:
  assumes len: "length (sequence (g_GameState m)) = 25"
    and idx: "index (g_GameState m) < 25"
  shows "(addColor r m = Inr m' \<longrightarrow>
            take (unat (index (g_GameState m))) (sequence (g_GameState m'))
              = take (unat (index (g_GameState m))) (sequence (g_GameState m))
          \<and> (\<forall>i. i \<noteq> unat (index (g_GameState m))
                 \<longrightarrow> sequence (g_GameState m') ! i = sequence (g_GameState m) ! i)
          \<and> length (sequence (g_GameState m')) = 25
          \<and> has_lost (g_GameState m') = has_lost (g_GameState m)
          \<and> index (g_GameState m') = index (g_GameState m) + 1
          \<and> m' = m\<lparr>g_GameState := g_GameState m'\<rparr>)
       \<and> (displaySequence ma = Inr mb \<longrightarrow> g_GameState mb = g_GameState ma)
       \<and> (getButtonColor ma = Inr (c, mb) \<longrightarrow> g_GameState mb = g_GameState ma)
       \<and> (startNextRound_from i ma = Inr mb
            \<longrightarrow> sequence (g_GameState mb) = sequence (g_GameState ma)
              \<and> index (g_GameState mb) = index (g_GameState ma))
       \<and> g_GameState (showLoss ma) = g_GameState ma
       \<and> g_GameState (delay ms ma) = g_GameState ma
       \<and> (loop r ma = Inr mb
            \<longrightarrow> (\<forall>i. i \<noteq> unat (index (g_GameState ma))
                    \<longrightarrow> sequence (g_GameState mb) ! i = sequence (g_GameState ma) ! i)
              \<and> take (unat (index (g_GameState ma))) (sequence (g_GameState mb))
                  = take (unat (index (g_GameState ma))) (sequence (g_GameState ma)))"
proof (intro conjI impI)
  assume a: "addColor r m = Inr m'"
  then obtain c' where
    m': "m' = m\<lparr>g_GameState := (g_GameState m)
                \<lparr>sequence := (sequence (g_GameState m))[unat (index (g_GameState m)) := c'],
                 index := index (g_GameState m) + 1\<rparr>\<rparr>"
    by (auto simp: addColor_def array_store_def split: option.splits if_splits)
  show "take (unat (index (g_GameState m))) (sequence (g_GameState m'))
              = take (unat (index (g_GameState m))) (sequence (g_GameState m))"
    by (simp add: m')
  show "\<forall>i. i \<noteq> unat (index (g_GameState m))
                 \<longrightarrow> sequence (g_GameState m') ! i = sequence (g_GameState m) ! i"
    by (simp add: m')
  show "length (sequence (g_GameState m')) = 25" by (simp add: m' len)
  show "has_lost (g_GameState m') = has_lost (g_GameState m)" by (simp add: m')
  show "index (g_GameState m') = index (g_GameState m) + 1" by (simp add: m')
  show "m' = m\<lparr>g_GameState := g_GameState m'\<rparr>" by (simp add: m')
next
  assume "displaySequence ma = Inr mb"
  then show "g_GameState mb = g_GameState ma" by (rule displaySequence_game)
next
  assume "getButtonColor ma = Inr (c, mb)"
  then show "g_GameState mb = g_GameState ma" by (rule getButtonColor_game(1))
next
  assume s: "startNextRound_from i ma = Inr mb"
  from startNextRound_from_frame [OF s]
  show "sequence (g_GameState mb) = sequence (g_GameState ma)"
    and "index (g_GameState mb) = index (g_GameState ma)" by simp_all
next
  show "g_GameState (showLoss ma) = g_GameState ma" by (simp add: showLoss_writes)
  show "g_GameState (delay ms ma) = g_GameState ma" by simp
next
  assume l: "loop r ma = Inr mb"
  note s = loop_step [OF l]
  show "\<forall>i. i \<noteq> unat (index (g_GameState ma))
                    \<longrightarrow> sequence (g_GameState mb) ! i = sequence (g_GameState ma) ! i"
    using s(2,3) by (cases "has_lost (g_GameState ma)") auto
  show "take (unat (index (g_GameState ma))) (sequence (g_GameState mb))
                  = take (unat (index (g_GameState ma))) (sequence (g_GameState ma))"
    using s(2,3) by (cases "has_lost (g_GameState ma)") auto
qed

theorem sequence_append_only_witness:
  "length (sequence (g_GameState m_two)) = 25
   \<and> index (g_GameState m_two) < 25
   \<and> (\<exists>m'. addColor 3 m_two = Inr m'
          \<and> take 2 (sequence (g_GameState m')) = take 2 (sequence (g_GameState m_two))
          \<and> \<not> has_lost (g_GameState m')
          \<and> m' = m_two\<lparr>g_GameState := g_GameState m'\<rparr>)
   \<and> (\<exists>mb. displaySequence m_two = Inr mb \<and> g_GameState mb = g_GameState m_two)
   \<and> (\<exists>mb. getButtonColor m_presses = Inr (YELLOW, mb)
          \<and> g_GameState mb = g_GameState m_presses)
   \<and> (\<exists>mb. startNextRound_from 0 m_matches = Inr mb
          \<and> sequence (g_GameState mb) = sequence (g_GameState m_matches))
   \<and> (\<exists>mb. loop 1 (power_on (press RED)) = Inr mb
          \<and> sequence (g_GameState mb) ! 1
               = sequence (g_GameState (power_on (press RED))) ! 1)"
proof -
  have len: "length (sequence (g_GameState m_two)) = 25" by (simp add: m_two_def)
  have idx: "index (g_GameState m_two) < 25" by (simp add: m_two_def)
  have n: "unat (index (g_GameState m_two)) = 2" by (simp add: m_two_def)
  note frame = sequence_append_only [OF len idx]
  obtain m' where a: "addColor 3 m_two = Inr m'" using m_two_addColor by blast
  from frame [where r = 3 and m' = m'] a n
  have 1: "take 2 (sequence (g_GameState m')) = take 2 (sequence (g_GameState m_two))"
    "has_lost (g_GameState m') = has_lost (g_GameState m_two)"
    "m' = m_two\<lparr>g_GameState := g_GameState m'\<rparr>"
    by simp_all
  from 1(2) have nl: "\<not> has_lost (g_GameState m')" by (simp add: m_two_def)
  obtain md where d: "displaySequence m_two = Inr md" using m_two_displaySequence by blast
  from frame [where ma = m_two and mb = md] d
  have 2: "g_GameState md = g_GameState m_two" by simp
  have "YELLOW \<in> {RED, BLUE, GREEN, YELLOW}" by simp
  moreover have "reads m_presses = press YELLOW @ (press GREEN @ press BLUE)"
    by (simp add: m_presses_def)
  ultimately obtain mg where g: "getButtonColor m_presses = Inr (YELLOW, mg)"
    using getButtonColor_press by blast
  from frame [where ma = m_presses and mb = mg and c = YELLOW] g
  have 3: "g_GameState mg = g_GameState m_presses" by simp
  obtain ms where s: "startNextRound_from 0 m_matches = Inr ms"
    using m_matches_round by blast
  from frame [where ma = m_matches and mb = ms and i = 0] s
  have 4: "sequence (g_GameState ms) = sequence (g_GameState m_matches)" by simp
  obtain ml where l: "loop 1 (power_on (press RED)) = Inr ml"
    using first_round by blast
  have "unat (index (g_GameState (power_on (press RED)))) = 0" by (simp add: power_on_def)
  with frame [where ma = "power_on (press RED)" and mb = ml and r = 1] l
  have 5: "sequence (g_GameState ml) ! 1
             = sequence (g_GameState (power_on (press RED))) ! 1"
    by simp
  from len idx a 1(1,3) nl d 2 g 3 s 4 l 5 show ?thesis by blast
qed

text \<open>
  C9. Every state that the main loop reaches from the initial state, with the values
  that \<open>random(RED, YELLOW + 1)\<close> can return, has the 25-element buffer, \<open>index\<close> at most
  25 and a playable colour (Red, Blue, Green or Yellow) at every position below
  \<open>index\<close>. The initial state has the invariant, and \<open>addColor\<close> and a whole iteration
  of the main loop keep it. In a state with the invariant \<open>NO_COLOR\<close> is not among the
  colours in use, so \<open>displaySequence\<close> plays back playable colours only and never
  drives pin 0, the pin of \<open>displayColor\<close>'s \<open>default\<close> branch.
\<close>

theorem sequence_below_index_playable:
  "playable_below_index (g_GameState (power_on rd))
   \<and> ((\<forall>r\<in>set rs. random_returns (Color_value RED) (Color_value YELLOW + 1) r)
        \<and> loop_times rs (power_on rd) = Inr m
      \<longrightarrow> playable_below_index (g_GameState m))
   \<and> (playable_below_index (g_GameState m0)
        \<and> random_returns (Color_value RED) (Color_value YELLOW + 1) r
      \<longrightarrow> (addColor r m0 = Inr m1 \<longrightarrow> playable_below_index (g_GameState m1))
        \<and> (loop r m0 = Inr m2 \<longrightarrow> playable_below_index (g_GameState m2)))
   \<and> (playable_below_index (g_GameState m0)
      \<longrightarrow> NO_COLOR \<notin> set (live (g_GameState m0))
        \<and> set (live (g_GameState m0)) \<subseteq> {RED, BLUE, GREEN, YELLOW}
        \<and> displaySequence m0 =
            Inr (m0\<lparr>writes := writes m0 @ playback (live (g_GameState m0))\<rparr>)
        \<and> (\<forall>l. DigitalWrite 0 l \<notin> set (playback (live (g_GameState m0)))))"
proof (intro conjI impI)
  show init: "playable_below_index (g_GameState (power_on rd))"
    by (simp add: playable_below_index_def power_on_def)
  {
    assume "(\<forall>r\<in>set rs. random_returns (Color_value RED) (Color_value YELLOW + 1) r)
        \<and> loop_times rs (power_on rd) = Inr m"
    then show "playable_below_index (g_GameState m)"
      using playable_below_index_loop_times [OF init] by blast
  }
  {
    assume h: "playable_below_index (g_GameState m0)
        \<and> random_returns (Color_value RED) (Color_value YELLOW + 1) r"
    {
      assume "addColor r m0 = Inr m1"
      with h show "playable_below_index (g_GameState m1)"
        using playable_below_index_addColor by blast
    }
    {
      assume "loop r m0 = Inr m2"
      with h show "playable_below_index (g_GameState m2)"
        using playable_below_index_loop by blast
    }
  }
  {
    assume inv: "playable_below_index (g_GameState m0)"
    then have wf: "unat (index (g_GameState m0)) \<le> length (sequence (g_GameState m0))"
      by (simp add: playable_below_index_def)
    show sub: "set (live (g_GameState m0)) \<subseteq> {RED, BLUE, GREEN, YELLOW}"
      using inv wf unfolding live_by_index [OF wf] playable_below_index_def by auto
    then show "NO_COLOR \<notin> set (live (g_GameState m0))" by auto
    show "displaySequence m0 =
            Inr (m0\<lparr>writes := writes m0 @ playback (live (g_GameState m0))\<rparr>)"
      using displaySequence_from_writes [OF wf, of 0] by (simp add: displaySequence_def)
    show "\<forall>l. DigitalWrite 0 l \<notin> set (playback (live (g_GameState m0)))"
    proof (intro allI notI)
      fix l assume "DigitalWrite 0 l \<in> set (playback (live (g_GameState m0)))"
      from playback_pins [OF this] sub show False
        by (auto simp: colorToLED_def pin_defs)
    qed
  }
qed

theorem sequence_below_index_playable_witness:
  "random_returns (Color_value RED) (Color_value YELLOW + 1) 1
   \<and> random_returns (Color_value RED) (Color_value YELLOW + 1) 2
   \<and> (\<exists>m. loop_times [1, 2] (power_on (press RED @ press RED @ press BLUE)) = Inr m
         \<and> length (sequence (g_GameState m)) = 25
         \<and> unat (index (g_GameState m)) \<le> 25)
   \<and> random_returns (Color_value RED) (Color_value YELLOW + 1) 3
   \<and> (\<exists>m1. addColor 3 m_two = Inr m1 \<and> unat (index (g_GameState m1)) \<le> 25)
   \<and> (\<exists>m2. loop 1 (power_on (press RED)) = Inr m2 \<and> unat (index (g_GameState m2)) \<le> 25)
   \<and> NO_COLOR \<notin> set (live (g_GameState m_two))
   \<and> displaySequence m_two =
        Inr (m_two\<lparr>writes := writes m_two @ playback (live (g_GameState m_two))\<rparr>)"
proof -
  have rs: "\<forall>r\<in>set [1, 2]. random_returns (Color_value RED) (Color_value YELLOW + 1) r"
    by (simp add: random_returns_def)
  have r3: "random_returns (Color_value RED) (Color_value YELLOW + 1) 3"
    and r1: "random_returns (Color_value RED) (Color_value YELLOW + 1) 1"
    and r2: "random_returns (Color_value RED) (Color_value YELLOW + 1) 2"
    by (simp_all add: random_returns_def)
  obtain m where run: "loop_times [1, 2] (power_on (press RED @ press RED @ press BLUE)) = Inr m"
    using two_rounds by blast
  from sequence_below_index_playable
         [where rs = "[1, 2]" and rd = "press RED @ press RED @ press BLUE" and m = m]
       rs run
  have "playable_below_index (g_GameState m)" by blast
  then have 1: "length (sequence (g_GameState m)) = 25" "unat (index (g_GameState m)) \<le> 25"
    by (simp_all add: playable_below_index_def)
  obtain m1 where a: "addColor 3 m_two = Inr m1" using m_two_addColor by blast
  from sequence_below_index_playable [where ?m0.0 = m_two and r = 3 and ?m1.0 = m1]
       m_two_playable r3 a
  have "playable_below_index (g_GameState m1)"
    and 3: "NO_COLOR \<notin> set (live (g_GameState m_two))"
    and 4: "displaySequence m_two =
        Inr (m_two\<lparr>writes := writes m_two @ playback (live (g_GameState m_two))\<rparr>)"
    by blast+
  then have 2: "unat (index (g_GameState m1)) \<le> 25"
    by (simp add: playable_below_index_def)
  obtain m2 where l: "loop 1 (power_on (press RED)) = Inr m2" using first_round by blast
  from sequence_below_index_playable
         [where ?m0.0 = "power_on (press RED)" and r = 1 and ?m2.0 = m2 and rd = "press RED"]
       r1 l
  have "playable_below_index (g_GameState m2)" by blast
  then have 5: "unat (index (g_GameState m2)) \<le> 25"
    by (simp add: playable_below_index_def)
  from r1 r2 run 1 r3 a 2 l 5 3 4 show ?thesis by blast
qed

text \<open>
  C10. The three pin and colour mappings agree: for every \<open>uint8_t\<close> pin value \<open>p\<close>,
  \<open>colorToLED (buttonToColor p)\<close> is \<open>buttonToLED p\<close>. Each button pin goes through its
  colour to the LED pin that \<open>buttonToLED\<close> gives it, and every other pin goes to 0 on
  both paths.
\<close>

theorem colorToLED_buttonToColor:
  "colorToLED (buttonToColor p) = buttonToLED p
   \<and> colorToLED (buttonToColor RED_BUTTON) = RED_LED
   \<and> colorToLED (buttonToColor BLUE_BUTTON) = BLUE_LED
   \<and> colorToLED (buttonToColor GREEN_BUTTON) = GREEN_LED
   \<and> colorToLED (buttonToColor YELLOW_BUTTON) = YELLOW_LED
   \<and> (p \<notin> {RED_BUTTON, BLUE_BUTTON, GREEN_BUTTON, YELLOW_BUTTON}
        \<longrightarrow> buttonToLED p = 0 \<and> colorToLED (buttonToColor p) = 0)"
  by (simp add: colorToLED_def buttonToColor_def buttonToLED_def pin_defs)

theorem colorToLED_buttonToColor_witness:
  "(7 :: u8) \<notin> {RED_BUTTON, BLUE_BUTTON, GREEN_BUTTON, YELLOW_BUTTON}
   \<and> buttonToLED 7 = 0 \<and> colorToLED (buttonToColor 7) = 0
   \<and> colorToLED (buttonToColor RED_BUTTON) = RED_LED"
  using colorToLED_buttonToColor [of 7] by (simp add: pin_defs)

end
